theory Spec2Isabelle
  imports Complex_Main "HOL-Library.Word" "HOL-Library.Log_Nat"
begin

section \<open>JavaScript values used by game.js\<close>

text \<open>
  Integer-valued Numbers (range sizes, secrets, contributions, counters, indices) are
  modelled as \<open>int\<close> or \<open>nat\<close>, held exactly: inside the safe-integer range, up to
  \<open>2^53 - 1\<close> in magnitude, the double arithmetic of \<open>+\<close>, \<open>-\<close>, \<open>*\<close> and \<open>%\<close> on them is
  exact. Beyond it a double sum rounds: the commitments the constructor builds stay far
  inside (range size below \<open>2^48\<close>, secret below \<open>2^32\<close>), and a statement about an
  arbitrary contribution carries the bound.

  Every other Number is a \<open>number\<close>: \<open>NaN\<close>, an infinity, or \<open>Fin q\<close>, which stands for the
  double nearest to the rational \<open>q\<close>. The sign of a zero is not kept.
\<close>

datatype number = NaN | PosInf | NegInf | Fin rat

subsection \<open>Rounding to a double\<close>

text \<open>The binary exponent of a rational \<open>q \<noteq> 0\<close>: the \<open>e\<close> with \<open>2^e \<le> |q| < 2^(e+1)\<close>,
  found from the bit lengths of numerator and denominator.\<close>

definition exponent :: "rat \<Rightarrow> int" where
  "exponent q =
     (case quotient_of q of (n, d) \<Rightarrow>
        (let e0 = bitlen \<bar>n\<bar> - bitlen d
         in if 2 powi e0 \<le> \<bar>q\<bar> then e0 else e0 - 1))"

text \<open>Rounding to the nearest integer, a tie going to the even one.\<close>

definition round_half_even :: "rat \<Rightarrow> int" where
  "round_half_even x =
     (let f = \<lfloor>x\<rfloor>; r = x - of_int f
      in if r < 1 / 2 then f else if 1 / 2 < r then f + 1
         else if even f then f else f + 1)"

text \<open>
  The IEEE 754 binary64 rounding of a rational, to nearest and ties to even, the exponent
  not bounded above: a multiple of \<open>2^(e - 52)\<close>, where \<open>e\<close> is the exponent of \<open>q\<close> and at
  least \<open>-1022\<close> (below, the subnormal spacing \<open>2^-1074\<close>).
\<close>

definition fl :: "rat \<Rightarrow> rat" where
  "fl q =
     (if q = 0 then 0
      else (let e = max (exponent q) (- 1022); u = 2 powi (e - 52)
            in of_int (round_half_even (q / u)) * u))"

text \<open>The double a rational rounds to: an infinity when the rounding reaches \<open>2^1024\<close>.\<close>

definition double_of :: "rat \<Rightarrow> number" where
  "double_of q =
     (let v = fl q
      in if 2 ^ 1024 \<le> v then PosInf else if v \<le> - (2 ^ 1024) then NegInf else Fin v)"

text \<open>The double a \<open>number\<close> stands for.\<close>

fun double :: "number \<Rightarrow> number" where
  "double (Fin q) = double_of q"
| "double NaN = NaN"
| "double PosInf = PosInf"
| "double NegInf = NegInf"

subsection \<open>The operators\<close>

text \<open>
  The operators \<open>+\<close>, \<open>-\<close> and \<open>/\<close> read their operands as doubles. Of two finite doubles
  they return the exact sum, difference or quotient, which stands for the double the
  operator returns: one rounding.
\<close>

fun add_doubles :: "number \<Rightarrow> number \<Rightarrow> number" where
  "add_doubles NaN _ = NaN"
| "add_doubles _ NaN = NaN"
| "add_doubles PosInf NegInf = NaN"
| "add_doubles NegInf PosInf = NaN"
| "add_doubles PosInf _ = PosInf"
| "add_doubles _ PosInf = PosInf"
| "add_doubles NegInf _ = NegInf"
| "add_doubles _ NegInf = NegInf"
| "add_doubles (Fin a) (Fin b) = Fin (a + b)"

definition js_add :: "number \<Rightarrow> number \<Rightarrow> number" where
  "js_add x y = add_doubles (double x) (double y)"

fun negate :: "number \<Rightarrow> number" where
  "negate NaN = NaN"
| "negate PosInf = NegInf"
| "negate NegInf = PosInf"
| "negate (Fin a) = Fin (- a)"

definition js_sub :: "number \<Rightarrow> number \<Rightarrow> number" where
  "js_sub x y = add_doubles (double x) (negate (double y))"

text \<open>\<open>0 / 0\<close> is \<open>NaN\<close>, \<open>a / 0\<close> is an infinity.\<close>

fun div_doubles :: "number \<Rightarrow> number \<Rightarrow> number" where
  "div_doubles NaN _ = NaN"
| "div_doubles _ NaN = NaN"
| "div_doubles (Fin a) (Fin b) =
     (if b = 0 then (if a = 0 then NaN else if 0 < a then PosInf else NegInf)
      else Fin (a / b))"
| "div_doubles (Fin a) _ = Fin 0"
| "div_doubles PosInf (Fin b) = (if 0 \<le> b then PosInf else NegInf)"
| "div_doubles NegInf (Fin b) = (if 0 \<le> b then NegInf else PosInf)"
| "div_doubles _ _ = NaN"

definition js_div :: "number \<Rightarrow> number \<Rightarrow> number" where
  "js_div x y = div_doubles (double x) (double y)"

text \<open>
  The operator \<open>/\<close> on two counters, which are integers held exactly: the exact quotient,
  standing for the double the program gets, the one nearest to it.
\<close>

definition js_div_counters :: "nat \<Rightarrow> nat \<Rightarrow> number" where
  "js_div_counters a b =
     (if b = 0 then (if a = 0 then NaN else PosInf) else Fin (of_nat a / of_nat b))"

text \<open>
  The operator \<open>%\<close> on integer-valued Numbers: the remainder takes the sign of the dividend
  (truncated division), and a zero divisor gives \<open>NaN\<close>, here \<open>None\<close>.
\<close>

definition js_rem :: "int \<Rightarrow> int \<Rightarrow> int option" where
  "js_rem a b = (if b = 0 then None else Some (sgn a * (\<bar>a\<bar> mod \<bar>b\<bar>)))"

text \<open>What a \<open>throw\<close> carries: the program's own \<open>Error(message)\<close>, or an error of the
  Node.js library.\<close>

datatype error = Error string | ERR_OUT_OF_RANGE | ERR_INVALID_ARG_TYPE

subsection \<open>The faces of a die\<close>

text \<open>
  A face is what \<open>parseInt\<close> returns when it is not \<open>NaN\<close>: an integer-valued double or an
  infinity. The comparison \<open>a > b\<close> of the program is the order of these values.
\<close>

datatype face = MinusInfinity | Finite int | PlusInfinity

fun face_less :: "face \<Rightarrow> face \<Rightarrow> bool" where
  "face_less (Finite a) (Finite b) = (a < b)"
| "face_less MinusInfinity MinusInfinity = False"
| "face_less MinusInfinity _ = True"
| "face_less _ MinusInfinity = False"
| "face_less PlusInfinity _ = False"
| "face_less _ PlusInfinity = True"

instantiation face :: linorder
begin

definition less_face :: "face \<Rightarrow> face \<Rightarrow> bool" where
  "less_face a b = face_less a b"

definition less_eq_face :: "face \<Rightarrow> face \<Rightarrow> bool" where
  "less_eq_face a b = (a = b \<or> face_less a b)"

instance
proof
  fix x y z :: face
  show "(x < y) = (x \<le> y \<and> \<not> y \<le> x)"
    by (cases x; cases y) (auto simp: less_face_def less_eq_face_def)
  show "x \<le> x"
    by (simp add: less_eq_face_def)
  show "x \<le> y \<Longrightarrow> y \<le> z \<Longrightarrow> x \<le> z"
    by (cases x; cases y; cases z) (auto simp: less_eq_face_def)
  show "x \<le> y \<Longrightarrow> y \<le> x \<Longrightarrow> x = y"
    by (cases x; cases y) (auto simp: less_eq_face_def)
  show "x \<le> y \<or> y \<le> x"
    by (cases x; cases y) (auto simp: less_eq_face_def)
qed

end

text \<open>
  The Number value of a mathematical integer: the double nearest to it, an infinity when
  the rounding reaches \<open>2^1024\<close>. The rounding of an integer is an integer, and up to
  \<open>2^53\<close> in magnitude the integer itself.
\<close>

definition number_of_integer :: "int \<Rightarrow> face" where
  "number_of_integer v =
     (let r = fl (of_int v)
      in if 2 ^ 1024 \<le> r then PlusInfinity
         else if r \<le> - (2 ^ 1024) then MinusInfinity
         else Finite \<lfloor>r\<rfloor>)"

section \<open>The Node.js crypto and Buffer calls\<close>

text \<open>
  The secure random source is a state: how many draws have been made so far, and the values
  the source delivers (\<open>src g i\<close> is the raw value of draw \<open>i\<close>). Each byte of
  \<open>randomBytes\<close> and each \<open>randomInt\<close> is one draw.
\<close>

record rng =
  draws :: nat
  src :: "nat \<Rightarrow> nat"

type_synonym byte = "8 word"

definition randomBytes :: "nat \<Rightarrow> rng \<Rightarrow> byte list \<times> rng" where
  "randomBytes n g =
     (map (\<lambda>i. of_nat (src g (draws g + i))) [0..<n], g\<lparr>draws := draws g + n\<rparr>)"

definition isSafeInteger :: "int \<Rightarrow> bool" where
  "isSafeInteger n = (\<bar>n\<bar> \<le> 2 ^ 53 - 1)"

definition RAND_MAX :: int where
  "RAND_MAX = 0xFFFFFFFFFFFF"

text \<open>
  \<open>crypto.randomInt(min, max)\<close>: rejects bounds that are not safe integers, an upper bound
  not above the lower one and a range wider than \<open>RAND_MAX\<close>, all before drawing; otherwise
  it returns an integer \<open>n\<close> with \<open>min \<le> n < max\<close>.
\<close>

definition randomInt :: "int \<Rightarrow> int \<Rightarrow> rng \<Rightarrow> (error + int) \<times> rng" where
  "randomInt lo hi g =
     (if \<not> isSafeInteger lo then (Inl ERR_INVALID_ARG_TYPE, g)
      else if \<not> isSafeInteger hi then (Inl ERR_INVALID_ARG_TYPE, g)
      else if hi \<le> lo then (Inl ERR_OUT_OF_RANGE, g)
      else if \<not> (hi - lo \<le> RAND_MAX) then (Inl ERR_OUT_OF_RANGE, g)
      else (Inr (lo + int (src g (draws g)) mod (hi - lo)), g\<lparr>draws := draws g + 1\<rparr>))"

text \<open>
  \<open>Buffer.alloc(4)\<close> followed by \<open>buffer.writeUInt32BE(v)\<close>: the four bytes of \<open>v\<close>, most
  significant first; a value outside \<open>[0, 2^32 - 1]\<close> throws.
\<close>

definition writeUInt32BE :: "int \<Rightarrow> error + byte list" where
  "writeUInt32BE v =
     (if v < 0 \<or> 0xFFFFFFFF < v then Inl ERR_OUT_OF_RANGE
      else Inr [of_int (v div 2 ^ 24), of_int (v div 2 ^ 16), of_int (v div 2 ^ 8), of_int v])"

text \<open>\<open>buffer.toString("hex")\<close>: two lower-case hexadecimal digits per byte.\<close>

definition hex_digit :: "nat \<Rightarrow> char" where
  "hex_digit n = (''0123456789abcdef'') ! n"

definition toHex :: "byte list \<Rightarrow> string" where
  "toHex bs = concat (map (\<lambda>b. [hex_digit (unat b div 16), hex_digit (unat b mod 16)]) bs)"

text \<open>
  The keyed hash \<open>createHmac("sha3-256", key).update(buffer).digest("hex")\<close> is a parameter
  \<open>H\<close> of the model: a function of the key and of the message.
\<close>

type_synonym keyed_hash = "byte list \<Rightarrow> byte list \<Rightarrow> string"

section \<open>FairRandomGenerator\<close>

record FairRandomGenerator =
  rangeSize :: int
  key :: "byte list"
  secret_x :: int
  hmac :: string

text \<open>\<open>computeHMAC\<close> reads \<open>this.key\<close> and \<open>this.x\<close>; the constructor calls it before
  \<open>this.hmac\<close> exists, so the model passes the two fields.\<close>

definition computeHMAC :: "keyed_hash \<Rightarrow> byte list \<Rightarrow> int \<Rightarrow> error + string" where
  "computeHMAC H k xv =
     (case writeUInt32BE xv of Inl e \<Rightarrow> Inl e | Inr buffer \<Rightarrow> Inr (H k buffer))"

text \<open>The constructor, in the order of its statements: the key is drawn, then \<open>x\<close>, then
  the digest is computed. A throw leaves no object.\<close>

definition new_FairRandomGenerator ::
  "keyed_hash \<Rightarrow> int \<Rightarrow> rng \<Rightarrow> (error + FairRandomGenerator) \<times> rng" where
  "new_FairRandomGenerator H rs g =
     (case randomBytes 32 g of (k, g1) \<Rightarrow>
        (case randomInt 0 (rs + 1) g1 of
           (Inl e, g2) \<Rightarrow> (Inl e, g2)
         | (Inr xv, g2) \<Rightarrow>
             (case computeHMAC H k xv of
                Inl e \<Rightarrow> (Inl e, g2)
              | Inr h \<Rightarrow> (Inr \<lparr>rangeSize = rs, key = k, secret_x = xv, hmac = h\<rparr>, g2))))"

definition getHMAC :: "FairRandomGenerator \<Rightarrow> string" where
  "getHMAC c = hmac c"

text \<open>\<open>computeResult(y)\<close> for an integer \<open>y\<close>, the sum \<open>x + y\<close> held exactly: it is the
  double sum when \<open>y\<close> and \<open>x + y\<close> are safe integers.\<close>

definition computeResult :: "FairRandomGenerator \<Rightarrow> int \<Rightarrow> int option" where
  "computeResult c y = js_rem (secret_x c + y) (rangeSize c + 1)"

definition getX :: "FairRandomGenerator \<Rightarrow> int" where
  "getX c = secret_x c"

definition getKey :: "FairRandomGenerator \<Rightarrow> string" where
  "getKey c = toHex (key c)"

subsection \<open>What a verifier computes\<close>

text \<open>The value of a hexadecimal digit, and \<open>Buffer.from(s, "hex")\<close>, by which a verifier
  reads the revealed key back into bytes.\<close>

definition hex_value :: "char \<Rightarrow> nat" where
  "hex_value c =
     (let n = (of_char c :: nat)
      in if 48 \<le> n \<and> n \<le> 57 then n - 48
         else if 97 \<le> n \<and> n \<le> 102 then n - 87
         else if 65 \<le> n \<and> n \<le> 70 then n - 55
         else 0)"

fun fromHex :: "string \<Rightarrow> byte list" where
  "fromHex (hi # lo # rest) = of_nat (16 * hex_value hi + hex_value lo) # fromHex rest"
| "fromHex _ = []"

text \<open>The fixed-width big-endian encoding of the secret, four bytes, and the integer that
  a sequence of bytes encodes big-endian.\<close>

definition encode :: "int \<Rightarrow> byte list" where
  "encode v = [of_int (v div 256 ^ 3), of_int (v div 256 ^ 2), of_int (v div 256), of_int v]"

definition be_value :: "byte list \<Rightarrow> int" where
  "be_value bs = foldl (\<lambda>acc b. 256 * acc + uint b) 0 bs"

subsection \<open>A concrete random source, hash and commitment\<close>

text \<open>For evaluation on concrete inputs: a source delivering \<open>1, 2, 3, \<dots>\<close>, a stand-in
  for the keyed hash, and the commitment the constructor builds from them for range
  size \<open>5\<close>.\<close>

definition example_rng :: rng where
  "example_rng = \<lparr>draws = 0, src = Suc\<rparr>"

definition example_hash :: keyed_hash where
  "example_hash k m = toHex (m @ k)"

definition example_commitment :: FairRandomGenerator where
  "example_commitment =
     \<lparr>rangeSize = 5, key = map of_nat [1..<33], secret_x = 3,
      hmac = example_hash (map of_nat [1..<33]) [0, 0, 0, 3]\<rparr>"

section \<open>Dice and ProbabilityCalculator\<close>

record Dice =
  faces :: "face list"

definition getFaces :: "Dice \<Rightarrow> face list" where
  "getFaces d = faces d"

definition getFaceCount :: "Dice \<Rightarrow> nat" where
  "getFaceCount d = length (faces d)"

text \<open>The inner loop of \<open>calculateWinProbability\<close>: one face of \<open>die1\<close> against every face of
  \<open>die2\<close>, the counter \<open>die1Wins\<close> threaded through.\<close>

fun inner_faces :: "face \<Rightarrow> face list \<Rightarrow> nat \<Rightarrow> nat" where
  "inner_faces eachDie1Face [] die1Wins = die1Wins"
| "inner_faces eachDie1Face (eachDie2Face # rest) die1Wins =
     inner_faces eachDie1Face rest
       (if eachDie1Face > eachDie2Face then die1Wins + 1 else die1Wins)"

text \<open>The outer loop, over the faces of \<open>die1\<close>.\<close>

fun outer_faces :: "face list \<Rightarrow> face list \<Rightarrow> nat \<Rightarrow> nat" where
  "outer_faces [] faces2 die1Wins = die1Wins"
| "outer_faces (eachDie1Face # rest) faces2 die1Wins =
     outer_faces rest faces2 (inner_faces eachDie1Face faces2 die1Wins)"

definition calculateWinProbability :: "Dice \<Rightarrow> Dice \<Rightarrow> number" where
  "calculateWinProbability die1 die2 =
     (let totalFaces = getFaceCount die1 * getFaceCount die2;
          die1Wins = outer_faces (getFaces die1) (getFaces die2) 0
      in js_div_counters die1Wins totalFaces)"

text \<open>
  \<open>averageWinProbability\<close> compares dice with \<open>===\<close>, the identity of the objects. A die
  object is a reference into a store of \<open>Dice\<close>; two references are identical when they are
  the same reference, whatever faces the store holds for them.
\<close>

type_synonym ref = nat
type_synonym store = "ref \<Rightarrow> Dice"

fun average_loop :: "store \<Rightarrow> ref \<Rightarrow> ref list \<Rightarrow> number \<Rightarrow> number" where
  "average_loop h die [] tot = tot"
| "average_loop h die (eachDie # rest) tot =
     (if die = eachDie then average_loop h die rest tot
      else average_loop h die rest
             (js_add tot (calculateWinProbability (h die) (h eachDie))))"

definition averageWinProbability :: "store \<Rightarrow> ref \<Rightarrow> ref list \<Rightarrow> number" where
  "averageWinProbability h die dice =
     js_div (average_loop h die dice (Fin 0)) (Fin (of_int (int (length dice) - 1)))"

subsection \<open>The specification's wording of the probabilities\<close>

text \<open>The face pairs \<open>(fa, fb)\<close>, \<open>fa\<close> from \<open>a\<close> and \<open>fb\<close> from \<open>b\<close>, one per pair of
  positions; those with \<open>fa > fb\<close>; those with \<open>fa = fb\<close>.\<close>

definition face_pairs :: "Dice \<Rightarrow> Dice \<Rightarrow> (face \<times> face) list" where
  "face_pairs a b = List.product (faces a) (faces b)"

definition win_pairs :: "Dice \<Rightarrow> Dice \<Rightarrow> (face \<times> face) list" where
  "win_pairs a b = filter (\<lambda>(fa, fb). fa > fb) (face_pairs a b)"

definition tie_pairs :: "Dice \<Rightarrow> Dice \<Rightarrow> (face \<times> face) list" where
  "tie_pairs a b = filter (\<lambda>(fa, fb). fa = fb) (face_pairs a b)"

definition pairwiseWinProbability :: "Dice \<Rightarrow> Dice \<Rightarrow> rat" where
  "pairwiseWinProbability a b =
     of_nat (length (win_pairs a b)) / of_nat (length (faces a) * length (faces b))"

definition tie_fraction :: "Dice \<Rightarrow> Dice \<Rightarrow> rat" where
  "tie_fraction a b =
     of_nat (length (tie_pairs a b)) / of_nat (length (faces a) * length (faces b))"

text \<open>The pool members not identical to \<open>d\<close>, in pool order.\<close>

definition others :: "ref \<Rightarrow> ref list \<Rightarrow> ref list" where
  "others d pool = filter (\<lambda>other. other \<noteq> d) pool"

text \<open>The arithmetic mean of a list of Numbers, with the program's operators on doubles:
  the sum, taken from \<open>0\<close> and from left to right, divided by the number of entries.\<close>

definition mean_number :: "number list \<Rightarrow> number" where
  "mean_number ps = js_div (foldl js_add (Fin 0) ps) (Fin (of_nat (length ps)))"

text \<open>The dice of the specification's concrete scenario, and a store holding them under
  the references \<open>0\<close>, \<open>1\<close> and \<open>2\<close>.\<close>

definition die_A :: Dice where
  "die_A = \<lparr>faces = map Finite [2, 2, 4, 4, 9, 9]\<rparr>"

definition die_B :: Dice where
  "die_B = \<lparr>faces = map Finite [1, 1, 6, 6, 8, 8]\<rparr>"

definition die_C :: Dice where
  "die_C = \<lparr>faces = map Finite [3, 3, 5, 5, 7, 7]\<rparr>"

definition example_store :: store where
  "example_store r = (if r = 0 then die_A else if r = 1 then die_B else die_C)"

text \<open>Two dice on which a third of the face pairs are ties.\<close>

definition die_123 :: Dice where
  "die_123 = \<lparr>faces = map Finite [1, 2, 3]\<rparr>"

definition die_2 :: Dice where
  "die_2 = \<lparr>faces = [Finite 2]\<rparr>"

section \<open>Strings\<close>

text \<open>
  Strings are lists of 8-bit characters, the code points up to \<open>U+00FF\<close>. White space, for
  \<open>trim\<close> and \<open>parseInt\<close> alike, is TAB, LF, VT, FF, CR, SP and the no-break space
  \<open>U+00A0\<close>.
\<close>

definition isWhiteSpace :: "char \<Rightarrow> bool" where
  "isWhiteSpace c = ((of_char c :: nat) \<in> {9, 10, 11, 12, 13, 32, 160})"

definition trim :: "string \<Rightarrow> string" where
  "trim s = rev (dropWhile isWhiteSpace (rev (dropWhile isWhiteSpace s)))"

text \<open>
  In \<open>toUpperCase\<close> only the letters \<open>a\<close> to \<open>z\<close> change. The upper-case forms of the other
  letters are neither \<open>X\<close>, \<open>?\<close> nor digits, so the comparisons the program makes on an
  upper-cased answer come out the same.
\<close>

definition toUpperCase :: "string \<Rightarrow> string" where
  "toUpperCase s =
     map (\<lambda>c. if 97 \<le> (of_char c :: nat) \<and> (of_char c :: nat) \<le> 122
               then char_of ((of_char c :: nat) - 32) else c) s"

text \<open>\<open>s.split(sep)\<close> for a one-character separator: never an empty array.\<close>

fun split_on :: "char \<Rightarrow> string \<Rightarrow> string list" where
  "split_on sep [] = [[]]"
| "split_on sep (c # cs) =
     (if c = sep then [] # split_on sep cs
      else (case split_on sep cs of [] \<Rightarrow> [[c]] | w # ws \<Rightarrow> (c # w) # ws))"

text \<open>The value of a digit character, for radices up to 36.\<close>

definition digit_value :: "char \<Rightarrow> nat option" where
  "digit_value c =
     (let n = (of_char c :: nat)
      in if 48 \<le> n \<and> n \<le> 57 then Some (n - 48)
         else if 97 \<le> n \<and> n \<le> 122 then Some (n - 87)
         else if 65 \<le> n \<and> n \<le> 90 then Some (n - 55)
         else None)"

definition is_digit :: "nat \<Rightarrow> char \<Rightarrow> bool" where
  "is_digit R c = (case digit_value c of None \<Rightarrow> False | Some v \<Rightarrow> v < R)"

fun digits_value :: "nat \<Rightarrow> string \<Rightarrow> nat \<Rightarrow> nat" where
  "digits_value R [] acc = acc"
| "digits_value R (c # cs) acc =
     digits_value R cs (acc * R + (case digit_value c of None \<Rightarrow> 0 | Some v \<Rightarrow> v))"

text \<open>
  \<open>parseInt(s, radix)\<close>, radix \<open>0\<close> standing for an absent radix: leading white space and one
  sign are skipped, \<open>0x\<close> selects radix 16 when the radix is absent or 16, the longest prefix
  of digits is read and the rest ignored; no digit at all gives \<open>NaN\<close>, here \<open>None\<close>. The
  result is the Number value of the integer read: the nearest double, or an infinity.
\<close>

definition parseInt :: "string \<Rightarrow> nat \<Rightarrow> face option" where
  "parseInt s radix =
     (let S = dropWhile isWhiteSpace s;
          negative = (case S of [] \<Rightarrow> False | c # _ \<Rightarrow> c = CHR ''-'');
          S1 = (case S of [] \<Rightarrow> S | c # cs \<Rightarrow> if c = CHR ''+'' \<or> c = CHR ''-'' then cs else S)
      in if radix \<noteq> 0 \<and> (radix < 2 \<or> 36 < radix) then None
         else
           (let stripPrefix = (radix = 0 \<or> radix = 16);
                hexPrefix = (stripPrefix \<and> (take 2 S1 = ''0x'' \<or> take 2 S1 = ''0X''));
                S2 = (if hexPrefix then drop 2 S1 else S1);
                R = (if hexPrefix then 16 else if radix = 0 then 10 else radix);
                Z = takeWhile (is_digit R) S2
            in if Z = [] then None
               else Some (number_of_integer
                            ((if negative then - 1 else 1) * int (digits_value R Z 0)))))"

text \<open>\<open>i.toString()\<close> for a non-negative integer: its decimal digits.\<close>

fun toString :: "nat \<Rightarrow> string" where
  "toString n =
     (if n < 10 then [char_of (48 + n)]
      else toString (n div 10) @ [char_of (48 + n mod 10)])"

declare toString.simps [simp del]

section \<open>DiceParser\<close>

text \<open>The callback of \<open>facesInString.map\<close>, applied face by face; the first face that is
  not a number throws.\<close>

fun map_faces :: "string list \<Rightarrow> error + face list" where
  "map_faces [] = Inr []"
| "map_faces (face # rest) =
     (case parseInt (trim face) 0 of
        None \<Rightarrow> Inl (Error (''Invalid Die face: '' @ face))
      | Some num \<Rightarrow>
          (case map_faces rest of Inl e \<Rightarrow> Inl e | Inr nums \<Rightarrow> Inr (num # nums)))"

text \<open>The loop over the arguments, \<open>dice\<close> being the array built so far.\<close>

fun parse_args :: "string list \<Rightarrow> Dice list \<Rightarrow> error + Dice list" where
  "parse_args [] dice = Inr dice"
| "parse_args (arg # rest) dice =
     (case map_faces (split_on CHR '','' arg) of
        Inl e \<Rightarrow> Inl e
      | Inr fs \<Rightarrow>
          if length fs < 1 then Inl (Error ''A die must have at least one face'')
          else parse_args rest (dice @ [\<lparr>faces = fs\<rparr>]))"

definition parseDice :: "string list \<Rightarrow> error + Dice list" where
  "parseDice args =
     (if length args < 3
      then Inl (Error ''At least 3 Dice are required. Example: node game.js 1,2,3 4,5,6 7,8,9'')
      else parse_args args [])"

text \<open>A die reads an argument: its faces are, piece by piece, the Numbers that \<open>parseInt\<close>
  returns on the trimmed pieces between the commas, none of them \<open>NaN\<close>.\<close>

definition reads_as :: "string \<Rightarrow> Dice \<Rightarrow> bool" where
  "reads_as arg d =
     list_all2 (\<lambda>piece f. parseInt (trim piece) 0 = Some f) (split_on CHR '','' arg) (faces d)"

section \<open>Game: the fair roll and the throws\<close>

text \<open>
  The answers of the user are a list of lines, read one per prompt. A call ends by
  returning, by \<open>process.exit\<close>, by a throw, or it waits at a prompt when the lines are used
  up. Console output is not modelled.
\<close>

datatype 'a outcome = Returned 'a | Exited | Threw error | AwaitingInput

definition roll_options :: "int \<Rightarrow> string list" where
  "roll_options mx = map toString [0..<nat (mx + 1)]"

text \<open>The \<open>do ... while (true)\<close> loop of \<open>performFairRoll\<close>: the accepted answer and the
  lines left.\<close>

fun ask :: "string list \<Rightarrow> string list \<Rightarrow> string outcome \<times> string list" where
  "ask options [] = (AwaitingInput, [])"
| "ask options (line # rest) =
     (let userChoice = toUpperCase line
      in if userChoice = ''X'' then (Exited, rest)
         else if userChoice = ''?'' then ask options rest
         else if userChoice \<notin> set options then ask options rest
         else (Returned userChoice, rest))"

text \<open>The result of \<open>performFairRoll\<close> is a Number: \<open>None\<close> stands for \<open>NaN\<close>, which
  \<open>+\<close> and \<open>%\<close> propagate, and which \<open>%\<close> returns on an infinite sum.\<close>

definition performFairRoll ::
  "keyed_hash \<Rightarrow> int \<Rightarrow> rng \<Rightarrow> string list \<Rightarrow> int option outcome \<times> rng \<times> string list" where
  "performFairRoll H mx g lines =
     (case new_FairRandomGenerator H mx g of
        (Inl e, g') \<Rightarrow> (Threw e, g', lines)
      | (Inr fairRandom, g') \<Rightarrow>
          (case ask (roll_options mx) lines of
             (Returned userChoice, rest) \<Rightarrow>
               (let userY = parseInt userChoice 10;
                    result = (case userY of Some (Finite y) \<Rightarrow> computeResult fairRandom y
                              | _ \<Rightarrow> None)
                in (Returned result, g', rest))
           | (Exited, rest) \<Rightarrow> (Exited, g', rest)
           | (Threw e, rest) \<Rightarrow> (Threw e, g', rest)
           | (AwaitingInput, rest) \<Rightarrow> (AwaitingInput, g', rest)))"

text \<open>\<open>arr[i]\<close>: \<open>undefined\<close>, here \<open>None\<close>, when \<open>i\<close> is \<open>NaN\<close> or not an index of \<open>arr\<close>.\<close>

definition element_at :: "face list \<Rightarrow> int option \<Rightarrow> face option" where
  "element_at arr i =
     (case i of None \<Rightarrow> None
      | Some n \<Rightarrow> if 0 \<le> n \<and> n < int (length arr) then Some (arr ! nat n) else None)"

text \<open>\<open>performThrows\<close> returns the pair \<open>(userRoll, computerRoll)\<close> of face values.\<close>

definition performThrows ::
  "keyed_hash \<Rightarrow> Dice \<Rightarrow> Dice \<Rightarrow> rng \<Rightarrow> string list
     \<Rightarrow> (face option \<times> face option) outcome \<times> rng \<times> string list" where
  "performThrows H userDie computerDie g lines =
     (case performFairRoll H (int (getFaceCount computerDie) - 1) g lines of
        (Returned computerRoll, g1, lines1) \<Rightarrow>
          (case performFairRoll H (int (getFaceCount userDie) - 1) g1 lines1 of
             (Returned userRoll, g2, lines2) \<Rightarrow>
               (Returned (element_at (getFaces userDie) userRoll,
                          element_at (getFaces computerDie) computerRoll), g2, lines2)
           | (Exited, g2, lines2) \<Rightarrow> (Exited, g2, lines2)
           | (Threw e, g2, lines2) \<Rightarrow> (Threw e, g2, lines2)
           | (AwaitingInput, g2, lines2) \<Rightarrow> (AwaitingInput, g2, lines2))
      | (Exited, g1, lines1) \<Rightarrow> (Exited, g1, lines1)
      | (Threw e, g1, lines1) \<Rightarrow> (Threw e, g1, lines1)
      | (AwaitingInput, g1, lines1) \<Rightarrow> (AwaitingInput, g1, lines1))"

section \<open>Rounding\<close>

lemma exponent_bounds:
  assumes "q \<noteq> 0"
  shows "2 powi exponent q \<le> \<bar>q\<bar> \<and> \<bar>q\<bar> < 2 powi (exponent q + 1)"
proof -
  obtain n d where qd: "quotient_of q = (n, d)" by (cases "quotient_of q")
  have d: "0 < d" using qd by (rule quotient_of_denom_pos)
  have q: "q = of_int n / of_int d" using qd by (rule quotient_of_div)
  with assms have n: "0 < \<bar>n\<bar>" by auto
  define bn where "bn = bitlen \<bar>n\<bar>"
  define bd where "bd = bitlen d"
  have bn: "1 \<le> bn" and bd: "1 \<le> bd"
    using n d bitlen_eq_zero_iff [of "\<bar>n\<bar>"] bitlen_eq_zero_iff [of d]
      bitlen_nonneg [of "\<bar>n\<bar>"] bitlen_nonneg [of d]
    unfolding bn_def bd_def by linarith+
  have "\<bar>n\<bar> < 2 ^ nat bn" using bitlen_bounds [OF n] by (simp add: bn_def)
  then have "(of_int \<bar>n\<bar> :: rat) < of_int (2 ^ nat bn)" by (simp only: of_int_less_iff)
  then have nu: "(of_int \<bar>n\<bar> :: rat) < 2 powi bn"
    using bn by (simp add: power_int_def)
  have "2 ^ nat (bd - 1) \<le> d" using bitlen_bounds [OF d] by (simp add: bd_def)
  then have "(of_int (2 ^ nat (bd - 1)) :: rat) \<le> of_int d" by (simp only: of_int_le_iff)
  then have dl: "(2::rat) powi (bd - 1) \<le> of_int d"
    using bd by (simp add: power_int_def)
  have absq: "\<bar>q\<bar> = of_int \<bar>n\<bar> / of_int d"
    using d by (simp add: q)
  have "\<bar>q\<bar> < 2 powi bn / 2 powi (bd - 1)"
    unfolding absq using nu dl d
    by (intro frac_less) simp_all
  also have "\<dots> = 2 powi (bn - bd + 1)"
    by (simp add: power_int_diff [symmetric] algebra_simps)
  finally have up: "\<bar>q\<bar> < 2 powi (bn - bd + 1)" .
  have e: "exponent q = (if 2 powi (bn - bd) \<le> \<bar>q\<bar> then bn - bd else bn - bd - 1)"
    by (simp add: exponent_def qd bn_def bd_def Let_def)
  show ?thesis
  proof (cases "2 powi (bn - bd) \<le> \<bar>q\<bar>")
    case True
    with e up show ?thesis by simp
  next
    case False
    have nl: "(2::rat) powi (bn - 1) \<le> of_int \<bar>n\<bar>"
    proof -
      have "2 ^ nat (bn - 1) \<le> \<bar>n\<bar>" using bitlen_bounds [OF n] by (simp add: bn_def)
      then have "(of_int (2 ^ nat (bn - 1)) :: rat) \<le> of_int \<bar>n\<bar>" by (simp only: of_int_le_iff)
      then show ?thesis using bn by (simp add: power_int_def)
    qed
    have "d < 2 ^ nat bd" using bitlen_bounds [OF d] by (simp add: bd_def)
    then have "(of_int d :: rat) < of_int (2 ^ nat bd)" by (simp only: of_int_less_iff)
    then have du: "(of_int d :: rat) \<le> 2 powi bd"
      using bd by (simp add: power_int_def)
    have "(2::rat) powi (bn - bd - 1) = 2 powi (bn - 1) / 2 powi bd"
      by (simp add: power_int_diff [symmetric] algebra_simps)
    also have "\<dots> \<le> \<bar>q\<bar>"
      unfolding absq using nl du d
      by (intro frac_le) simp_all
    finally have "2 powi (bn - bd - 1) \<le> \<bar>q\<bar>" .
    with False e show ?thesis by simp
  qed
qed

lemma exponent_unique:
  assumes "2 powi e \<le> \<bar>q\<bar>" and "\<bar>q\<bar> < 2 powi (e + 1)"
  shows "exponent q = e"
proof -
  have "0 < (2::rat) powi e" by simp
  with assms(1) have "0 < \<bar>q\<bar>" by linarith
  then have "q \<noteq> 0" by auto
  from exponent_bounds [OF this]
  have b: "2 powi exponent q \<le> \<bar>q\<bar>" "\<bar>q\<bar> < 2 powi (exponent q + 1)" by simp_all
  have "(2::rat) powi e < 2 powi (exponent q + 1)" using assms(1) b(2) by simp
  then have 1: "e < exponent q + 1"
    by (metis not_le one_le_numeral power_int_increasing)
  have "(2::rat) powi exponent q < 2 powi (e + 1)" using assms(2) b(1) by simp
  then have 2: "exponent q < e + 1"
    by (metis not_le one_le_numeral power_int_increasing)
  from 1 2 show ?thesis by simp
qed

lemma round_half_even_of_int [simp]: "round_half_even (of_int k) = k"
  by (simp add: round_half_even_def)

lemma round_half_even_le: "x \<le> of_int b \<Longrightarrow> round_half_even x \<le> b"
proof -
  assume x: "x \<le> of_int b"
  then have f: "\<lfloor>x\<rfloor> \<le> b" by (simp add: floor_le_iff) 
  show ?thesis
  proof (cases "\<lfloor>x\<rfloor> = b")
    case True
    with x have "x = of_int \<lfloor>x\<rfloor>" using of_int_floor_le [of x] by simp
    then have "round_half_even x = \<lfloor>x\<rfloor>" by (metis round_half_even_of_int)
    with True show ?thesis by simp
  next
    case False
    with f have "\<lfloor>x\<rfloor> + 1 \<le> b" by simp
    then show ?thesis by (auto simp: round_half_even_def Let_def)
  qed
qed

lemma round_half_even_ge: "of_int a \<le> x \<Longrightarrow> a \<le> round_half_even x"
proof -
  assume "of_int a \<le> x"
  then have "a \<le> \<lfloor>x\<rfloor>" by (simp add: le_floor_iff)
  then show ?thesis by (auto simp: round_half_even_def Let_def)
qed


lemma fl_0 [simp]: "fl 0 = 0"
  by (simp add: fl_def)

lemma fl_fixed:
  assumes "q / 2 powi (max (exponent q) (- 1022) - 52) = of_int k"
  shows "fl q = q"
proof (cases "q = 0")
  case True
  then show ?thesis by simp
next
  case False
  let ?u = "(2::rat) powi (max (exponent q) (- 1022) - 52)"
  have u: "?u \<noteq> 0" by simp
  from assms have "of_int k * ?u = q" using u by (simp add: field_simps)
  with False assms show ?thesis by (simp add: fl_def Let_def)
qed

lemma p2_less_imp: "(2::rat) powi a < 2 powi b \<Longrightarrow> a < b"
  by (metis not_le one_le_numeral power_int_increasing)

lemma p2_le_imp: "(2::rat) powi a \<le> 2 powi b \<Longrightarrow> a \<le> b"
  by (metis not_less one_less_numeral_iff power_int_strict_increasing semiring_norm(76))

lemma fl_mantissa:
  assumes "q \<noteq> 0"
  defines "e \<equiv> max (exponent q) (- 1022)"
  defines "m \<equiv> round_half_even (q / 2 powi (e - 52))"
  shows "fl q = of_int m * 2 powi (e - 52)" and "\<bar>m\<bar> \<le> 2 ^ 53"
proof -
  let ?u = "(2::rat) powi (e - 52)"
  show "fl q = of_int m * ?u"
    using assms(1) by (simp add: fl_def Let_def e_def m_def)
  have u: "0 < ?u" by simp
  have "\<bar>q\<bar> < 2 powi (exponent q + 1)" using exponent_bounds [OF assms(1)] by simp
  also have "\<dots> \<le> 2 powi (e + 1)"
    by (rule power_int_increasing) (simp_all add: e_def)
  finally have "\<bar>q\<bar> < 2 powi (e + 1)" .
  moreover have "(2::rat) powi (e + 1) = 2 ^ 53 * ?u"
  proof -
    have "(2::rat) powi (e + 1) = 2 powi (53 + (e - 52))" by (simp add: algebra_simps)
    also have "\<dots> = 2 powi 53 * ?u" by (rule power_int_add) simp
    finally show ?thesis by simp
  qed
  ultimately have "\<bar>q\<bar> < 2 ^ 53 * ?u" by simp
  then have "\<bar>q\<bar> / ?u < 2 ^ 53" using u by (simp add: pos_divide_less_eq)
  then have "\<bar>q / ?u\<bar> < 2 ^ 53" using u by simp
  then have "q / ?u \<le> 2 ^ 53" "- (2 ^ 53) \<le> q / ?u"
    by linarith+
  then have b: "q / ?u \<le> of_int (2 ^ 53)" "of_int (- (2 ^ 53)) \<le> q / ?u"
    by simp_all
  have "m \<le> 2 ^ 53"
    unfolding m_def using b(1) by (rule round_half_even_le)
  moreover have "- (2 ^ 53) \<le> m"
    unfolding m_def using b(2) by (rule round_half_even_ge)
  ultimately
  show "\<bar>m\<bar> \<le> 2 ^ 53" by simp
qed

lemma fl_idem [simp]: "fl (fl q) = fl q"
proof (cases "q = 0")
  case True
  then show ?thesis by simp
next
  case False
  define e where "e = max (exponent q) (- 1022)"
  define m where "m = round_half_even (q / 2 powi (e - 52))"
  let ?u = "(2::rat) powi (e - 52)"
  have v: "fl q = of_int m * ?u" and m: "\<bar>m\<bar> \<le> 2 ^ 53"
    using fl_mantissa [OF False] by (simp_all add: e_def m_def)
  have e: "- 1022 \<le> e" by (simp add: e_def)
  have u: "0 < ?u" by simp
  have absv: "\<bar>fl q\<bar> = of_int \<bar>m\<bar> * ?u"
    by (simp add: v abs_mult)
  have top: "(2::rat) ^ 53 * ?u = 2 powi (e + 1)"
  proof -
    have "(2::rat) powi (e + 1) = 2 powi (53 + (e - 52))" by (simp add: algebra_simps)
    also have "\<dots> = 2 powi 53 * ?u" by (rule power_int_add) simp
    finally show ?thesis by simp
  qed
  show ?thesis
  proof (cases "m = 0")
    case True
    with v show ?thesis by simp
  next
    case m0: False
    show ?thesis
    proof (cases "\<bar>m\<bar> = 2 ^ 53")
      case True
      then have av: "\<bar>fl q\<bar> = 2 powi (e + 1)"
        using absv top by simp
      have "(2::rat) powi (e + 1) < 2 powi (e + 1 + 1)"
        by (rule power_int_strict_increasing) simp_all
      with av have ex: "exponent (fl q) = e + 1"
        by (intro exponent_unique) simp_all
      have mx: "max (e + 1) (- 1022) = e + 1" using e by simp
      have "(2::rat) powi (e + 1 - 52) = 2 powi (1 + (e - 52))" by (simp add: algebra_simps)
      also have "\<dots> = 2 powi 1 * ?u" by (rule power_int_add) simp
      finally have u2: "(2::rat) powi (e + 1 - 52) = 2 * ?u" by simp
      have ev: "even m" using True by (metis dvd_abs_iff even_numeral even_power zero_less_numeral)
      then obtain k where k: "m = 2 * k" by (auto elim: evenE)
      have "fl q / (2 * ?u) = of_int k"
        using u by (simp add: v k)
      moreover have "2 powi (max (exponent (fl q)) (- 1022) - 52) = 2 * ?u"
        by (simp only: ex mx u2)
      ultimately have "fl q / 2 powi (max (exponent (fl q)) (- 1022) - 52) = of_int k"
        by (simp only:)
      then show ?thesis by (rule fl_fixed)
    next
      case False
      with m have "\<bar>m\<bar> < 2 ^ 53" by simp
      then have "(of_int \<bar>m\<bar> :: rat) < of_int (2 ^ 53)" by (simp only: of_int_less_iff)
      then have "of_int \<bar>m\<bar> * ?u < of_int (2 ^ 53) * ?u"
        using u by (rule mult_strict_right_mono)
      then have lt: "\<bar>fl q\<bar> < 2 powi (e + 1)"
        unfolding absv top [symmetric] by simp
      have ne: "fl q \<noteq> 0" using v m0 u by simp
      from exponent_bounds [OF ne] lt have "(2::rat) powi exponent (fl q) < 2 powi (e + 1)"
        by simp
      then have "exponent (fl q) < e + 1" by (rule p2_less_imp)
      then have le: "max (exponent (fl q)) (- 1022) \<le> e" using e by simp
      define e' where "e' = max (exponent (fl q)) (- 1022)"
      have "?u = 2 powi ((e - e') + (e' - 52))" by (simp add: algebra_simps)
      also have "\<dots> = 2 powi (e - e') * 2 powi (e' - 52)" by (rule power_int_add) simp
      also have "(2::rat) powi (e - e') = of_int (2 ^ nat (e - e'))"
        using le by (simp add: e'_def power_int_def)
      finally have "?u = of_int (2 ^ nat (e - e')) * 2 powi (e' - 52)" .
      then have "fl q = of_int (m * 2 ^ nat (e - e')) * 2 powi (e' - 52)"
        by (simp add: v)
      then have "fl q / 2 powi (e' - 52) = of_int (m * 2 ^ nat (e - e'))"
        by simp
      then show ?thesis unfolding e'_def by (rule fl_fixed)
    qed
  qed
qed

lemma fl_nonneg: "0 \<le> q \<Longrightarrow> 0 \<le> fl q"
proof (cases "q = 0")
  case True
  then show ?thesis by simp
next
  case False
  assume "0 \<le> q"
  then have "of_int 0 \<le> q / 2 powi (max (exponent q) (- 1022) - 52)" by simp
  then have "0 \<le> round_half_even (q / 2 powi (max (exponent q) (- 1022) - 52))"
    by (rule round_half_even_ge)
  with False show ?thesis by (simp add: fl_def Let_def)
qed

lemma fl_of_int:
  assumes "\<bar>n\<bar> \<le> 2 ^ 53"
  shows "fl (of_int n) = of_int n"
proof (cases "n = 0")
  case True
  then show ?thesis by simp
next
  case False
  let ?q = "of_int n :: rat"
  have ne: "?q \<noteq> 0" using False by simp
  note b = exponent_bounds [OF ne]
  have "(2::rat) powi 0 \<le> \<bar>?q\<bar>" using False by (simp flip: of_int_abs add: )
  with b have "(2::rat) powi 0 < 2 powi (exponent ?q + 1)" by linarith
  then have lo: "0 \<le> exponent ?q" using p2_less_imp by fastforce
  have "\<bar>?q\<bar> \<le> 2 powi 53" using assms by (simp flip: of_int_abs)
  with b have "(2::rat) powi exponent ?q \<le> 2 powi 53" by linarith
  then have hi: "exponent ?q \<le> 53" by (rule p2_le_imp)
  have mx: "max (exponent ?q) (- 1022) = exponent ?q" using lo by simp
  show ?thesis
  proof (cases "exponent ?q = 53")
    case True
    with b have "2 ^ 53 \<le> \<bar>?q\<bar>" by simp
    then have "(of_int (2 ^ 53) :: rat) \<le> of_int \<bar>n\<bar>" by simp
    then have "2 ^ 53 \<le> \<bar>n\<bar>" by (simp only: of_int_le_iff)
    with assms have "\<bar>n\<bar> = 2 ^ 53" by simp
    then have "n = 2 ^ 53 \<or> n = - (2 ^ 53)" by linarith
    then have "?q / 2 powi (max (exponent ?q) (- 1022) - 52) = of_int (n div 2)"
      by (auto simp: mx True)
    then show ?thesis by (rule fl_fixed)
  next
    case False
    with hi have le: "exponent ?q \<le> 52" by simp
    have "(1::rat) = 2 powi ((52 - exponent ?q) + (exponent ?q - 52))" by simp
    also have "\<dots> = 2 powi (52 - exponent ?q) * 2 powi (exponent ?q - 52)"
      by (rule power_int_add) simp
    also have "(2::rat) powi (52 - exponent ?q) = of_int (2 ^ nat (52 - exponent ?q))"
      using le by (simp add: power_int_def)
    finally have "?q / 2 powi (exponent ?q - 52) = of_int (n * 2 ^ nat (52 - exponent ?q))"
      by (simp add: field_simps)
    then show ?thesis using mx fl_fixed by metis
  qed
qed

lemma double_of_0 [simp]: "double_of 0 = Fin 0"
  by (simp add: double_of_def)

lemma double_of_minus_1 [simp]: "double_of (- 1) = Fin (- 1)"
  using fl_of_int [of "- 1"] by (simp add: double_of_def)

lemma double_of_nonneg:
  assumes "0 \<le> q"
  shows "double_of q = PosInf \<or> double_of q = Fin (fl q)"
proof -
  have "0 \<le> fl q" using assms by (rule fl_nonneg)
  then have "\<not> fl q \<le> - (2 ^ 1024)" by simp
  then show ?thesis by (simp add: double_of_def Let_def)
qed

section \<open>The combined result\<close>

lemma js_rem_nonneg: "0 \<le> a \<Longrightarrow> 0 < b \<Longrightarrow> js_rem a b = Some (a mod b)"
  by (simp add: js_rem_def sgn_if)

lemma js_rem_bounds:
  assumes "0 < m"
  shows "\<exists>r. js_rem a m = Some r \<and> - (m - 1) \<le> r \<and> r \<le> m - 1"
proof -
  define q where "q = \<bar>a\<bar> mod m"
  have q: "0 \<le> q" "q < m"
    using assms by (simp_all add: q_def)
  have "js_rem a m = Some (sgn a * q)"
    using assms by (simp add: js_rem_def q_def)
  moreover have "- (m - 1) \<le> sgn a * q \<and> sgn a * q \<le> m - 1"
    using q by (cases a "0::int" rule: linorder_cases) simp_all
  ultimately show ?thesis by simp
qed

lemma mod_succ_bounds: "0 \<le> (m::int) \<Longrightarrow> 0 \<le> k mod (m + 1) \<and> k mod (m + 1) \<le> m"
  using pos_mod_bound [of "m + 1" k] pos_mod_sign [of "m + 1" k] by linarith

lemma computeResult_in_range:
  assumes "0 \<le> secret_x c" and "secret_x c \<le> rangeSize c" and "0 \<le> y"
  shows "\<exists>r. computeResult c y = Some r \<and> r = (secret_x c + y) mod (rangeSize c + 1)
           \<and> 0 \<le> r \<and> r \<le> rangeSize c"
proof -
  have m: "0 < rangeSize c + 1" using assms by simp
  have "computeResult c y = Some ((secret_x c + y) mod (rangeSize c + 1))"
    unfolding computeResult_def using assms m by (intro js_rem_nonneg) simp_all
  moreover have "0 \<le> (secret_x c + y) mod (rangeSize c + 1)"
    using m by simp
  moreover have "(secret_x c + y) mod (rangeSize c + 1) < rangeSize c + 1"
    using m by (rule pos_mod_bound)
  ultimately show ?thesis by simp
qed

text \<open>
  C1. For a range size \<open>rangeSize \<ge> 0\<close>, a secret \<open>x\<close> in \<open>[0, rangeSize]\<close> and a contribution
  \<open>y\<close> in \<open>[0, rangeSize]\<close>, \<open>computeResult\<close> returns exactly \<open>(x + y) mod (rangeSize + 1)\<close>, and
  that result lies in \<open>[0, rangeSize]\<close>.
\<close>

theorem computeResult_mod:
  assumes "0 \<le> rangeSize c"
    and "0 \<le> secret_x c" and "secret_x c \<le> rangeSize c"
    and "0 \<le> y" and "y \<le> rangeSize c"
  shows "\<exists>r. computeResult c y = Some r \<and> r = (secret_x c + y) mod (rangeSize c + 1)
           \<and> 0 \<le> r \<and> r \<le> rangeSize c"
proof -
  have "computeResult c y = Some ((secret_x c + y) mod (rangeSize c + 1))"
    unfolding computeResult_def using assms by (intro js_rem_nonneg) simp_all
  moreover have "0 \<le> (secret_x c + y) mod (rangeSize c + 1)"
    using assms by simp
  moreover have "(secret_x c + y) mod (rangeSize c + 1) < rangeSize c + 1"
    using assms by (intro pos_mod_bound) simp
  ultimately show ?thesis by simp
qed

theorem computeResult_mod_witness:
  "computeResult \<lparr>rangeSize = 5, key = [], secret_x = 4, hmac = ''''\<rparr> 3 = Some 1"
  using computeResult_mod [of "\<lparr>rangeSize = 5, key = [], secret_x = 4, hmac = ''''\<rparr>" 3]
  by simp

text \<open>
  C4 (as the code has it). \<open>computeResult\<close> checks nothing and raises nothing: for a
  commitment with \<open>rangeSize \<ge> 0\<close> and secret in \<open>[0, rangeSize]\<close> it returns a Number for every
  integer contribution \<open>y\<close> such that \<open>y\<close> and \<open>x + y\<close> are safe integers, in
  \<open>[-rangeSize, rangeSize]\<close>; for every such \<open>y \<ge> 0\<close>, also above \<open>rangeSize\<close>, that Number
  is \<open>(x + y) mod (rangeSize + 1)\<close>, in \<open>[0, rangeSize]\<close>.
\<close>

theorem computeResult_unchecked:
  assumes "0 \<le> rangeSize c" and "isSafeInteger (rangeSize c + 1)"
    and "0 \<le> secret_x c" and "secret_x c \<le> rangeSize c"
    and "isSafeInteger y" and "isSafeInteger (secret_x c + y)"
  shows "\<exists>r. computeResult c y = Some r \<and> - rangeSize c \<le> r \<and> r \<le> rangeSize c
           \<and> (0 \<le> y \<longrightarrow> r = (secret_x c + y) mod (rangeSize c + 1) \<and> 0 \<le> r)"
proof -
  have m: "0 < rangeSize c + 1" using assms(1) by simp
  from js_rem_bounds [OF m, of "secret_x c + y"]
  obtain r where r: "computeResult c y = Some r" "- rangeSize c \<le> r" "r \<le> rangeSize c"
    by (auto simp: computeResult_def)
  have "r = (secret_x c + y) mod (rangeSize c + 1) \<and> 0 \<le> r" if "0 \<le> y"
  proof -
    have "computeResult c y = Some ((secret_x c + y) mod (rangeSize c + 1))"
      unfolding computeResult_def using that assms(3) m by (intro js_rem_nonneg) simp_all
    with r(1) have "r = (secret_x c + y) mod (rangeSize c + 1)" by simp
    moreover have "0 \<le> (secret_x c + y) mod (rangeSize c + 1)" using m by simp
    ultimately show ?thesis by simp
  qed
  with r show ?thesis by blast
qed

theorem computeResult_unchecked_witness:
  "computeResult \<lparr>rangeSize = 5, key = [], secret_x = 4, hmac = []\<rparr> 9 = Some 1"
  using computeResult_unchecked [of "\<lparr>rangeSize = 5, key = [], secret_x = 4, hmac = []\<rparr>" 9]
  by (simp add: isSafeInteger_def)

text \<open>
  The claim C4 as stated fails: with range size \<open>1\<close> the contribution \<open>5\<close> is outside
  \<open>[0, 1]\<close>, and \<open>computeResult\<close> returns \<open>1\<close>.
\<close>

theorem computeResult_no_OutOfRange:
  "computeResult \<lparr>rangeSize = 1, key = [], secret_x = 0, hmac = ''''\<rparr> 5 = Some 1"
  by (simp add: computeResult_def js_rem_def)

section \<open>The commitment\<close>

lemma hex_value_hex_digits: "\<forall>n\<in>set [0..<16]. hex_value (hex_digit n) = n"
  by code_simp

lemma hex_value_hex_digit: "n < 16 \<Longrightarrow> hex_value (hex_digit n) = n"
  using hex_value_hex_digits by simp

lemma fromHex_toHex: "fromHex (toHex bs) = bs"
proof (induction bs)
  case Nil
  then show ?case by (simp add: toHex_def)
next
  case (Cons b bs)
  have lo: "unat b mod 16 < 16" by simp
  have "unat b < 256" using unsigned_less [of b] by simp
  then have hi: "unat b div 16 < 16" by simp
  have "(of_nat (16 * (unat b div 16) + unat b mod 16) :: byte) = b"
    by simp
  with Cons show ?case
    by (simp add: toHex_def hex_value_hex_digit [OF lo] hex_value_hex_digit [OF hi])
qed

lemma new_FairRandomGenerator_Inr:
  assumes "new_FairRandomGenerator H rs g = (Inr c, g')"
  shows "rangeSize c = rs \<and> 0 \<le> secret_x c \<and> secret_x c \<le> rs \<and> rs + 1 \<le> RAND_MAX"
  using assms
  by (auto simp: new_FairRandomGenerator_def randomBytes_def randomInt_def mod_succ_bounds
      split: prod.splits sum.splits if_splits)

lemma new_FairRandomGenerator_succeeds:
  assumes "0 \<le> rs" and "rs \<le> 0xFFFFFFFF"
  shows "\<exists>c. new_FairRandomGenerator H rs g = (Inr c, g\<lparr>draws := draws g + 33\<rparr>)
           \<and> rangeSize c = rs \<and> secret_x c = int (src g (draws g + 32)) mod (rs + 1)"
proof -
  let ?x = "int (src g (draws g + 32)) mod (rs + 1)"
  have x: "0 \<le> ?x" "?x \<le> rs"
    using mod_succ_bounds [OF assms(1)] by simp_all
  then have "\<not> (?x < 0 \<or> 0xFFFFFFFF < ?x)"
    using assms(2) by linarith
  then have w: "\<exists>buffer. writeUInt32BE ?x = Inr buffer"
    unfolding writeUInt32BE_def by (simp only: if_False) blast
  have r: "randomInt 0 (rs + 1) (g\<lparr>draws := draws g + 32\<rparr>)
             = (Inr ?x, g\<lparr>draws := draws g + 33\<rparr>)"
    using assms by (simp add: randomInt_def isSafeInteger_def RAND_MAX_def)
  from w obtain buffer where "writeUInt32BE ?x = Inr buffer" by blast
  then show ?thesis
    by (simp add: new_FairRandomGenerator_def randomBytes_def r computeHMAC_def)
qed

lemma example_commitment_built:
  "new_FairRandomGenerator example_hash 5 example_rng
     = (Inr example_commitment, example_rng\<lparr>draws := 33\<rparr>)"
proof -
  have "map (\<lambda>i. (of_nat (Suc i) :: byte)) [0..<32] = map of_nat [1..<33]"
    by code_simp
  then show ?thesis
    by (simp add: new_FairRandomGenerator_def randomBytes_def randomInt_def isSafeInteger_def
        RAND_MAX_def computeHMAC_def writeUInt32BE_def example_rng_def example_commitment_def)
qed

lemma be_value_encode:
  assumes "0 \<le> v" and "v \<le> 0xFFFFFFFF"
  shows "be_value (encode v) = v"
proof -
  have u: "uint (of_int k :: byte) = k mod 256" for k
    by (simp add: uint_word_of_int take_bit_eq_mod)
  define q1 where "q1 = v div 256"
  define q2 where "q2 = q1 div 256"
  define q3 where "q3 = q2 div 256"
  have e2: "v div 65536 = q2"
    using zdiv_zmult2_eq [of 256 v 256] by (simp add: q2_def q1_def)
  have e3: "v div 16777216 = q3"
    using zdiv_zmult2_eq [of 256 v 65536] e2 by (simp add: q3_def)
  have "q3 < 256" "0 \<le> q3"
    using assms by (simp_all add: q3_def q2_def q1_def)
  then have a: "q3 mod 256 = q3" by simp
  have d: "v = 256 * q1 + v mod 256" by (simp add: q1_def)
  have c: "q1 = 256 * q2 + q1 mod 256" by (simp add: q2_def)
  have b: "q2 = 256 * q3 + q2 mod 256" by (simp add: q3_def)
  have "be_value (encode v)
          = 256 * (256 * (256 * (q3 mod 256) + q2 mod 256) + q1 mod 256) + v mod 256"
    by (simp add: be_value_def encode_def u e2 e3 flip: q1_def)
  also have "\<dots> = 256 * (256 * q2 + q1 mod 256) + v mod 256"
    unfolding a by (simp only: b [symmetric])
  also have "\<dots> = 256 * q1 + v mod 256"
    by (simp only: c [symmetric])
  also have "\<dots> = v"
    by (simp only: d [symmetric])
  finally show ?thesis .
qed

lemma writeUInt32BE_encode:
  assumes "writeUInt32BE v = Inr buffer"
  shows "buffer = encode v \<and> 0 \<le> v \<and> v \<le> 0xFFFFFFFF"
  using assms by (auto simp: writeUInt32BE_def encode_def split: if_splits)

text \<open>
  C2. For every commitment the constructor builds, the digest \<open>getHMAC\<close> published before
  is the keyed hash, under the key read back from the revealed \<open>getKey\<close>, of the encoding
  of the revealed secret \<open>getX\<close>: four bytes that hold the secret big-endian.
\<close>

theorem commitment_digest_roundtrip:
  assumes "new_FairRandomGenerator H rs g = (Inr c, g')"
  shows "getHMAC c = H (fromHex (getKey c)) (encode (getX c))
         \<and> length (encode (getX c)) = 4 \<and> be_value (encode (getX c)) = getX c"
proof -
  from assms obtain buffer where
    w: "writeUInt32BE (secret_x c) = Inr buffer" and h: "hmac c = H (key c) buffer"
    by (auto simp: new_FairRandomGenerator_def computeHMAC_def split: prod.splits sum.splits)
  from writeUInt32BE_encode [OF w] have e: "buffer = encode (secret_x c)"
    and r: "0 \<le> secret_x c" "secret_x c \<le> 0xFFFFFFFF" by simp_all
  have "getHMAC c = H (fromHex (getKey c)) (encode (getX c))"
    by (simp add: getHMAC_def getKey_def getX_def h e fromHex_toHex)
  moreover have "length (encode (getX c)) = 4"
    by (simp add: encode_def)
  moreover have "be_value (encode (getX c)) = getX c"
    unfolding getX_def using r by (rule be_value_encode)
  ultimately show ?thesis by simp
qed

theorem commitment_digest_roundtrip_witness:
  "getHMAC example_commitment
     = example_hash (fromHex (getKey example_commitment)) (encode (getX example_commitment))
   \<and> be_value (encode (getX example_commitment)) = getX example_commitment"
  using commitment_digest_roundtrip [OF example_commitment_built] by simp

text \<open>
  C5 (as the code has it). For every negative \<open>rangeSize\<close> the constructor fails, with the
  error of \<open>crypto.randomInt\<close>, and builds no commitment; it fails after the 32 bytes of the
  key have been drawn from the random source and before the secret is drawn.
\<close>

theorem negative_range_fails_after_key:
  assumes "rs < 0"
  shows "\<exists>e. new_FairRandomGenerator H rs g = (Inl e, g\<lparr>draws := draws g + 32\<rparr>)
            \<and> (e = ERR_OUT_OF_RANGE \<or> e = ERR_INVALID_ARG_TYPE)"
  using assms
  by (simp add: new_FairRandomGenerator_def randomBytes_def randomInt_def)

theorem negative_range_fails_after_key_witness:
  "\<exists>e. new_FairRandomGenerator example_hash (- 3) example_rng
          = (Inl e, example_rng\<lparr>draws := draws example_rng + 32\<rparr>)
       \<and> (e = ERR_OUT_OF_RANGE \<or> e = ERR_INVALID_ARG_TYPE)"
  using negative_range_fails_after_key [of "- 3" example_hash example_rng] by simp

text \<open>
  The claim C5 as stated fails: for \<open>rangeSize = -1\<close> the constructor throws, and the random
  source, at \<open>0\<close> draws before the call, is at \<open>32\<close> draws after it: the key was
  generated.
\<close>

theorem negative_range_key_drawn:
  "fst (new_FairRandomGenerator example_hash (- 1) example_rng) = Inl ERR_OUT_OF_RANGE
   \<and> draws example_rng = 0
   \<and> draws (snd (new_FairRandomGenerator example_hash (- 1) example_rng)) = 32"
  by (simp add: new_FairRandomGenerator_def randomBytes_def randomInt_def isSafeInteger_def
      example_rng_def)

section \<open>Win probabilities\<close>

lemma inner_faces_count:
  "inner_faces f fs w = w + length (filter (\<lambda>fb. f > fb) fs)"
  by (induction fs arbitrary: w) simp_all

lemma outer_faces_count:
  "outer_faces fs1 fs2 w = w + (\<Sum>fa\<leftarrow>fs1. length (filter (\<lambda>fb. fa > fb) fs2))"
  by (induction fs1 arbitrary: w) (simp_all add: inner_faces_count)

lemma length_filter_product:
  "length (filter (\<lambda>(x, y). P x y) (List.product xs ys)) = (\<Sum>x\<leftarrow>xs. length (filter (P x) ys))"
proof (induction xs)
  case Nil
  then show ?case by simp
next
  case (Cons x xs)
  have "length (filter (\<lambda>(x, y). P x y) (map (Pair x) ys)) = length (filter (P x) ys)"
    by (simp add: filter_map comp_def)
  with Cons show ?case by simp
qed

lemma count_swap:
  "(\<Sum>y\<leftarrow>ys. length (filter (\<lambda>x. P x y) xs)) = (\<Sum>x\<leftarrow>xs. length (filter (P x) ys))"
proof (induction xs)
  case Nil
  then show ?case by simp
next
  case (Cons x xs)
  have "(\<Sum>y\<leftarrow>ys. length (filter (\<lambda>x. P x y) (x # xs)))
        = (\<Sum>y\<leftarrow>ys. (if P x y then 1 else 0) + length (filter (\<lambda>x. P x y) xs))"
    by (rule arg_cong [where f = sum_list]) simp
  also have "\<dots> = (\<Sum>y\<leftarrow>ys. if P x y then 1 else 0) + (\<Sum>y\<leftarrow>ys. length (filter (\<lambda>x. P x y) xs))"
    by (simp add: sum_list_addf)
  also have "(\<Sum>y\<leftarrow>ys. if P x y then 1 else 0) = length (filter (P x) ys)"
    by (induction ys) simp_all
  finally show ?case using Cons by simp
qed

lemma trichotomy_count:
  "length (filter (\<lambda>y. (x::face) > y) ys) + length (filter (\<lambda>y. y > x) ys)
     + length (filter (\<lambda>y. x = y) ys) = length ys"
  by (induction ys) auto

lemma die1Wins_eq: "outer_faces (faces a) (faces b) 0 = length (win_pairs a b)"
  by (simp add: outer_faces_count win_pairs_def face_pairs_def length_filter_product)

lemma win_pairs_le: "length (win_pairs a b) \<le> length (faces a) * length (faces b)"
proof -
  have "length (win_pairs a b) \<le> length (face_pairs a b)"
    unfolding win_pairs_def by (rule length_filter_le)
  then show ?thesis by (simp add: face_pairs_def)
qed

lemma counts_partition:
  "length (win_pairs a b) + length (win_pairs b a) + length (tie_pairs a b)
     = length (faces a) * length (faces b)"
proof -
  let ?xs = "faces a" and ?ys = "faces b"
  have w: "length (win_pairs a b) = (\<Sum>x\<leftarrow>?xs. length (filter (\<lambda>y. x > y) ?ys))"
    by (simp add: win_pairs_def face_pairs_def length_filter_product)
  have "length (win_pairs b a) = (\<Sum>y\<leftarrow>?ys. length (filter (\<lambda>x. y > x) ?xs))"
    by (simp add: win_pairs_def face_pairs_def length_filter_product)
  also have "\<dots> = (\<Sum>x\<leftarrow>?xs. length (filter (\<lambda>y. y > x) ?ys))"
    by (rule count_swap)
  finally have l: "length (win_pairs b a) = (\<Sum>x\<leftarrow>?xs. length (filter (\<lambda>y. y > x) ?ys))" .
  have t: "length (tie_pairs a b) = (\<Sum>x\<leftarrow>?xs. length (filter (\<lambda>y. x = y) ?ys))"
    by (simp add: tie_pairs_def face_pairs_def length_filter_product)
  have "length (win_pairs a b) + length (win_pairs b a) + length (tie_pairs a b)
        = (\<Sum>x\<leftarrow>?xs. length (filter (\<lambda>y. x > y) ?ys) + length (filter (\<lambda>y. y > x) ?ys)
             + length (filter (\<lambda>y. x = y) ?ys))"
    by (simp add: w l t sum_list_addf)
  also have "\<dots> = (\<Sum>x\<leftarrow>?xs. length ?ys)"
    by (simp only: trichotomy_count)
  also have "\<dots> = length ?xs * length ?ys"
    by (simp add: sum_list_triv)
  finally show ?thesis .
qed

lemma calculateWinProbability_Fin:
  assumes "faces a \<noteq> []" and "faces b \<noteq> []"
  shows "calculateWinProbability a b = Fin (pairwiseWinProbability a b)"
  using assms
  by (simp add: calculateWinProbability_def Let_def getFaceCount_def getFaces_def
      die1Wins_eq pairwiseWinProbability_def js_div_counters_def)

lemma quotient_le_one: "w \<le> n \<Longrightarrow> 0 \<le> w \<Longrightarrow> w / n \<le> (1::rat)"
  by (cases "n = 0") (simp_all add: divide_le_eq_1)

lemma pairwise_bounds:
  "0 \<le> pairwiseWinProbability a b \<and> pairwiseWinProbability a b \<le> 1"
proof -
  let ?w = "of_nat (length (win_pairs a b)) :: rat"
  let ?n = "of_nat (length (faces a) * length (faces b)) :: rat"
  have le: "?w \<le> ?n"
    using win_pairs_le [of a b] by (simp only: of_nat_le_iff)
  have "0 \<le> ?w / ?n"
    by (rule divide_nonneg_nonneg) simp_all
  moreover have "?w / ?n \<le> 1"
    using le by (rule quotient_le_one) simp
  ultimately show ?thesis
    unfolding pairwiseWinProbability_def by blast
qed

lemma fl_values:
  "fl (1 / 3) = 6004799503160661 / 18014398509481984"
  "fl (6004799503160661 / 9007199254740992) = 6004799503160661 / 9007199254740992"
  "fl (3002399751580331 / 9007199254740992) = 3002399751580331 / 9007199254740992"
  "fl (5 / 9) = 2501999792983609 / 4503599627370496"
  "fl (4 / 9) = 2001599834386887 / 4503599627370496"
  by code_simp+

lemma fl_1 [simp]: "fl 1 = 1"
  using fl_of_int [of 1] by simp

lemma fl_2 [simp]: "fl 2 = 2"
  using fl_of_int [of 2] by simp

text \<open>
  Rounding moves a probability up by at most \<open>2^-54\<close>, and a sum of at most \<open>1 + 2^-53\<close>
  rounds to at most \<open>1\<close>: the double sum of two probabilities that add up to at most \<open>1\<close>
  is at most \<open>1\<close>.
\<close>

lemma round_half_even_upper: "of_int (round_half_even x) \<le> x + 1 / 2"
proof -
  define f where "f = \<lfloor>x\<rfloor>"
  have f: "of_int f \<le> x" unfolding f_def by (rule of_int_floor_le)
  consider "x - of_int f < 1 / 2" | "1 / 2 < x - of_int f" | "x - of_int f = 1 / 2"
    by linarith
  then show ?thesis
  proof cases
    case 1
    then have "round_half_even x = f" by (simp add: round_half_even_def Let_def f_def)
    with f show ?thesis by simp
  next
    case 2
    then have "round_half_even x = f + 1" by (simp add: round_half_even_def Let_def f_def)
    with 2 show ?thesis by simp
  next
    case 3
    then have "round_half_even x = f \<or> round_half_even x = f + 1"
      by (simp add: round_half_even_def Let_def f_def)
    with 3 show ?thesis by auto
  qed
qed

lemma round_half_even_tie_down:
  assumes "of_int k \<le> x" and "x \<le> of_int k + 1 / 2" and "even k"
  shows "round_half_even x = k"
proof -
  have "\<lfloor>x\<rfloor> = k"
    using assms(1,2) by (intro floor_unique) linarith+
  with assms show ?thesis
    by (auto simp: round_half_even_def Let_def)
qed

lemma exponent_below_one:
  assumes "0 < s" and "s < 1"
  shows "exponent s \<le> - 1"
proof -
  have "2 powi exponent s \<le> \<bar>s\<bar>" using exponent_bounds [of s] assms by simp
  also have "\<dots> < 2 powi 0" using assms by simp
  finally have "exponent s < 0" by (rule p2_less_imp)
  then show ?thesis by simp
qed

lemma fl_le_1:
  assumes "0 \<le> s" and "s \<le> 1 + 1 / 2 ^ 53"
  shows "fl s \<le> 1"
proof -
  consider "s = 0" | "0 < s" "s < 1" | "1 \<le> s" using assms(1) by linarith
  then show ?thesis
  proof cases
    case 1
    then show ?thesis by simp
  next
    case 2
    then have s0: "s \<noteq> 0" by simp
    define e where "e = max (exponent s) (- 1022)"
    define m where "m = round_half_even (s / 2 powi (e - 52))"
    have f: "fl s = of_int m * 2 powi (e - 52)" and m: "\<bar>m\<bar> \<le> 2 ^ 53"
      using fl_mantissa [OF s0] by (simp_all add: e_def m_def)
    have e: "e \<le> - 1" using exponent_below_one [OF 2] by (simp add: e_def)
    have "m \<le> 2 ^ 53" using m by linarith
    then have "(of_int m :: rat) \<le> of_int (2 ^ 53)" by (simp only: of_int_le_iff)
    then have "(of_int m :: rat) \<le> 2 powi 53" by simp
    then have "fl s \<le> 2 powi 53 * 2 powi (e - 52)"
      unfolding f by (intro mult_right_mono) simp_all
    also have "\<dots> = 2 powi (53 + (e - 52))" by (rule power_int_add [symmetric]) simp
    also have "\<dots> \<le> 2 powi 0" using e by (intro power_int_increasing) simp_all
    finally show ?thesis by simp
  next
    case 3
    have "s < 2" 
    proof -
      have "(1::rat) / 2 ^ 53 < 1" by simp
      with assms(2) show ?thesis by linarith
    qed
    then have ex: "exponent s = 0" using 3 by (intro exponent_unique) simp_all
    have s0: "s \<noteq> 0" using 3 by simp
    have u: "(2::rat) powi (- 52) = 1 / 2 ^ 52" by (simp add: power_int_minus field_simps)
    have r: "round_half_even (s / 2 powi (- 52)) = 2 ^ 52"
    proof (rule round_half_even_tie_down)
      show "of_int (2 ^ 52) \<le> s / 2 powi (- 52)" using 3 by (simp add: u)
      have "s * 2 ^ 52 \<le> (1 + 1 / 2 ^ 53) * 2 ^ 52" using assms(2) by (intro mult_right_mono) simp_all
      then show "s / 2 powi (- 52) \<le> of_int (2 ^ 52) + 1 / 2" by (simp add: u)
      show "even ((2::int) ^ 52)" by simp
    qed
    have mx: "max (0::int) (- 1022) - 52 = - 52" by simp
    have "fl s = of_int (round_half_even (s / 2 powi (- 52))) * 2 powi (- 52)"
      unfolding fl_def Let_def ex mx by (simp only: s0 if_False)
    also have "\<dots> = of_int (2 ^ 52) * 2 powi (- 52)" by (simp only: r)
    also have "\<dots> = 1" by (simp add: u)
    finally show ?thesis by simp
  qed
qed

lemma fl_upper_error:
  assumes "0 \<le> p" and "p \<le> 1"
  shows "fl p \<le> p + 1 / 2 ^ 54"
proof -
  consider "p = 0" | "0 < p" "p < 1" | "p = 1" using assms by linarith
  then show ?thesis
  proof cases
    case 1
    then show ?thesis by simp
  next
    case 3
    then show ?thesis by simp
  next
    case 2
    then have p0: "p \<noteq> 0" by simp
    define e where "e = max (exponent p) (- 1022)"
    define u where "u = (2::rat) powi (e - 52)"
    have u: "0 < u" by (simp add: u_def)
    have e: "e \<le> - 1" using exponent_below_one [OF 2] by (simp add: e_def)
    have "u \<le> 2 powi (- 53)" unfolding u_def using e by (intro power_int_increasing) simp_all
    also have "\<dots> = 1 / 2 ^ 53" by (simp add: power_int_minus field_simps)
    finally have ub: "u \<le> 1 / 2 ^ 53" .
    have "fl p = of_int (round_half_even (p / u)) * u"
      using p0 by (simp add: fl_def Let_def e_def u_def)
    also have "\<dots> \<le> (p / u + 1 / 2) * u"
      using u by (intro mult_right_mono round_half_even_upper) simp
    also have "\<dots> = p + u / 2" using u by (simp add: field_simps)
    also have "\<dots> \<le> p + 1 / 2 ^ 54" using ub by simp
    finally show ?thesis .
  qed
qed

lemma double_of_unit:
  assumes "0 \<le> p" and "p \<le> 1"
  shows "double_of p = Fin (fl p)"
proof -
  have "fl p \<le> 1" using assms by (intro fl_le_1) simp_all
  moreover have "0 \<le> fl p" using assms(1) by (rule fl_nonneg)
  moreover have "(1::rat) < 2 ^ 1024" by simp
  ultimately have "\<not> 2 ^ 1024 \<le> fl p" "\<not> fl p \<le> - (2 ^ 1024)" by linarith+
  then show ?thesis by (simp add: double_of_def)
qed

lemma double_sum_le_1:
  assumes "0 \<le> p" and "0 \<le> q" and "p + q \<le> 1"
  shows "\<exists>v. double (js_add (Fin p) (Fin q)) = Fin v \<and> 0 \<le> v \<and> v \<le> 1"
proof -
  have p1: "p \<le> 1" and q1: "q \<le> 1" using assms by linarith+
  let ?s = "fl p + fl q"
  have s0: "0 \<le> ?s" using fl_nonneg [OF assms(1)] fl_nonneg [OF assms(2)] by simp
  have "?s \<le> p + q + (1 / 2 ^ 54 + 1 / 2 ^ 54)"
    using fl_upper_error [OF assms(1) p1] fl_upper_error [OF assms(2) q1] by linarith
  also have "(1::rat) / 2 ^ 54 + 1 / 2 ^ 54 = 1 / 2 ^ 53" by simp
  finally have s1: "?s \<le> 1 + 1 / 2 ^ 53" using assms(3) by linarith
  have f: "fl ?s \<le> 1" using s0 s1 by (rule fl_le_1)
  have f0: "0 \<le> fl ?s" using s0 by (rule fl_nonneg)
  have "(1::rat) < 2 ^ 1024" by simp
  with f f0 have "\<not> 2 ^ 1024 \<le> fl ?s" "\<not> fl ?s \<le> - (2 ^ 1024)" by linarith+
  then have "double_of ?s = Fin (fl ?s)" by (simp add: double_of_def)
  then have "double (js_add (Fin p) (Fin q)) = Fin (fl ?s)"
    by (simp add: js_add_def double_of_unit [OF assms(1) p1] double_of_unit [OF assms(2) q1])
  with f f0 show ?thesis by blast
qed

lemma double_values:
  "double_of (1 / 3) = Fin (6004799503160661 / 18014398509481984)"
  "double_of (6004799503160661 / 9007199254740992) = Fin (6004799503160661 / 9007199254740992)"
  "double_of (3002399751580331 / 9007199254740992) = Fin (3002399751580331 / 9007199254740992)"
  "double_of (5 / 9) = Fin (2501999792983609 / 4503599627370496)"
  "double_of (4 / 9) = Fin (2001599834386887 / 4503599627370496)"
  "double_of 1 = Fin 1"
  "double_of 2 = Fin 2"
  by (simp_all add: double_of_def Let_def fl_values)

lemma double_of_fl: "double_of (fl q) = double_of q"
  by (simp add: double_of_def)

lemma double_values_again:
  "double_of (6004799503160661 / 18014398509481984) = Fin (6004799503160661 / 18014398509481984)"
  "double_of (2501999792983609 / 4503599627370496) = Fin (2501999792983609 / 4503599627370496)"
  "double_of (2001599834386887 / 4503599627370496) = Fin (2001599834386887 / 4503599627370496)"
  using double_of_fl [of "1 / 3"] double_of_fl [of "5 / 9"] double_of_fl [of "4 / 9"]
  by (simp_all add: fl_values double_values)

lemma calc_values:
  "calculateWinProbability die_A die_B = Fin (5 / 9)"
  "calculateWinProbability die_A die_C = Fin (4 / 9)"
  "calculateWinProbability die_123 die_2 = Fin (1 / 3)"
  "calculateWinProbability die_2 die_123 = Fin (1 / 3)"
  by code_simp+

lemma tie_value: "tie_fraction die_123 die_2 = 1 / 3"
  by code_simp

lemma sum_A: "js_add (js_add (Fin 0) (Fin (5 / 9))) (Fin (4 / 9)) = Fin 1"
  by (simp add: js_add_def double_values double_values_again)

lemma gap_value:
  "js_sub (Fin 1) (js_add (Fin (1 / 3)) (Fin (1 / 3))) = Fin (3002399751580331 / 9007199254740992)"
  by (simp add: js_sub_def js_add_def double_values)


text \<open>
  C3. For dice \<open>a\<close> and \<open>b\<close> with at least one face each, \<open>calculateWinProbability a b\<close> is the
  number of face pairs \<open>(fa, fb)\<close> with \<open>fa > fb\<close> divided by \<open>|a.faces| * |b.faces|\<close>; a pair
  with \<open>fa = fb\<close> counts for neither die; the result lies in \<open>[0, 1]\<close>.
\<close>

theorem calculateWinProbability_counts:
  assumes "faces a \<noteq> []" and "faces b \<noteq> []"
  shows "calculateWinProbability a b = Fin (pairwiseWinProbability a b)
         \<and> 0 \<le> pairwiseWinProbability a b \<and> pairwiseWinProbability a b \<le> 1"
  using calculateWinProbability_Fin [OF assms] pairwise_bounds [of a b] by simp

theorem calculateWinProbability_counts_witness:
  "calculateWinProbability die_A die_B = Fin (pairwiseWinProbability die_A die_B)
   \<and> pairwiseWinProbability die_A die_B = 5 / 9"
  using calculateWinProbability_counts [of die_A die_B] calc_values(1)
  by (simp add: die_A_def die_B_def)

lemma tie_gap:
  assumes "faces a \<noteq> []" and "faces b \<noteq> []"
  shows "1 - (pairwiseWinProbability a b + pairwiseWinProbability b a) = tie_fraction a b"
proof -
  let ?n = "length (faces a) * length (faces b)"
  have n: "(of_nat ?n :: rat) \<noteq> 0"
    using assms by simp
  have comm: "length (faces b) * length (faces a) = ?n"
    by (simp add: mult.commute)
  have "(of_nat (length (win_pairs a b)) :: rat) + of_nat (length (win_pairs b a))
          + of_nat (length (tie_pairs a b)) = of_nat ?n"
    using counts_partition [of a b] by (simp only: of_nat_add [symmetric])
  then have "(of_nat (length (tie_pairs a b)) :: rat)
      = of_nat ?n - (of_nat (length (win_pairs a b)) + of_nat (length (win_pairs b a)))"
    by simp
  then have "tie_fraction a b
      = (of_nat ?n - (of_nat (length (win_pairs a b)) + of_nat (length (win_pairs b a)))) / of_nat ?n"
    unfolding tie_fraction_def by (simp only:)
  also have "\<dots> = 1 - (of_nat (length (win_pairs a b)) / of_nat ?n
                        + of_nat (length (win_pairs b a)) / of_nat ?n)"
    by (simp only: diff_divide_distrib add_divide_distrib divide_self [OF n])
  finally show ?thesis
    unfolding pairwiseWinProbability_def comm by simp
qed

text \<open>
  C8 (as the code has it). For dice \<open>a\<close> and \<open>b\<close> with at least one face each, the counters
  of the loops add up: wins of \<open>a\<close>, wins of \<open>b\<close> and ties are all the face pairs. So the
  exact quotients, to which the two returned doubles are the nearest, add up to at most
  \<open>1\<close>, and what is missing to \<open>1\<close> is exactly the fraction of face pairs with equal
  values. The sum of the two returned doubles, computed with \<open>+\<close>, is at most \<open>1\<close> as well.
  For \<open>a = [1,1]\<close>, \<open>b = [1,1]\<close> the probability is \<open>0\<close>.
\<close>

theorem win_probabilities_tie_gap:
  assumes "faces a \<noteq> []" and "faces b \<noteq> []"
  shows "outer_faces (faces a) (faces b) 0 + outer_faces (faces b) (faces a) 0
             + length (tie_pairs a b) = length (faces a) * length (faces b)
         \<and> calculateWinProbability a b = Fin (pairwiseWinProbability a b)
         \<and> calculateWinProbability b a = Fin (pairwiseWinProbability b a)
         \<and> pairwiseWinProbability a b + pairwiseWinProbability b a \<le> 1
         \<and> 1 - (pairwiseWinProbability a b + pairwiseWinProbability b a) = tie_fraction a b
         \<and> (\<exists>v. double (js_add (calculateWinProbability a b) (calculateWinProbability b a))
                  = Fin v \<and> 0 \<le> v \<and> v \<le> 1)
         \<and> calculateWinProbability \<lparr>faces = [Finite 1, Finite 1]\<rparr> \<lparr>faces = [Finite 1, Finite 1]\<rparr>
             = Fin 0"
proof (intro conjI)
  show "outer_faces (faces a) (faces b) 0 + outer_faces (faces b) (faces a) 0
           + length (tie_pairs a b) = length (faces a) * length (faces b)"
    by (simp only: die1Wins_eq counts_partition)
  show "calculateWinProbability a b = Fin (pairwiseWinProbability a b)"
    using assms by (rule calculateWinProbability_Fin)
  show "calculateWinProbability b a = Fin (pairwiseWinProbability b a)"
    using assms(2,1) by (rule calculateWinProbability_Fin)
  show gap: "1 - (pairwiseWinProbability a b + pairwiseWinProbability b a) = tie_fraction a b"
    using assms by (rule tie_gap)
  have "0 \<le> tie_fraction a b"
    unfolding tie_fraction_def by (rule divide_nonneg_nonneg) simp_all
  with gap show le: "pairwiseWinProbability a b + pairwiseWinProbability b a \<le> 1"
    by linarith
  have "0 \<le> pairwiseWinProbability a b" "0 \<le> pairwiseWinProbability b a"
    unfolding pairwiseWinProbability_def by (rule divide_nonneg_nonneg; simp)+
  from double_sum_le_1 [OF this le]
  show "\<exists>v. double (js_add (calculateWinProbability a b) (calculateWinProbability b a))
              = Fin v \<and> 0 \<le> v \<and> v \<le> 1"
    by (simp only: calculateWinProbability_Fin [OF assms] calculateWinProbability_Fin [OF assms(2,1)])
  show "calculateWinProbability \<lparr>faces = [Finite 1, Finite 1]\<rparr> \<lparr>faces = [Finite 1, Finite 1]\<rparr>
          = Fin 0"
    by code_simp
qed

theorem win_probabilities_tie_gap_witness:
  "calculateWinProbability die_A die_B = Fin (5 / 9)
   \<and> calculateWinProbability die_B die_A = Fin (4 / 9)
   \<and> tie_fraction die_A die_B = 0"
proof -
  have "faces die_A \<noteq> []" "faces die_B \<noteq> []"
    by (simp_all add: die_A_def die_B_def)
  note t = win_probabilities_tie_gap [OF this]
  have "pairwiseWinProbability die_A die_B = 5 / 9" "pairwiseWinProbability die_B die_A = 4 / 9"
    by code_simp+
  with t show ?thesis by simp
qed

text \<open>
  The claim C8 as stated fails on the doubles the code returns. For \<open>a = [1,2,3]\<close> and
  \<open>b = [2]\<close> both probabilities are the double nearest to \<open>1/3\<close>, and so is the tie
  fraction; \<open>1 - (p + q)\<close>, computed on doubles, is \<open>0.33333333333333337\<close>, the next double
  above it.
\<close>

theorem tie_gap_not_exact_on_doubles:
  "calculateWinProbability die_123 die_2 = Fin (1 / 3)
   \<and> calculateWinProbability die_2 die_123 = Fin (1 / 3)
   \<and> tie_fraction die_123 die_2 = 1 / 3
   \<and> double (Fin (tie_fraction die_123 die_2)) = Fin (6004799503160661 / 2 ^ 54)
   \<and> double (js_sub (Fin 1) (js_add (calculateWinProbability die_123 die_2)
                                      (calculateWinProbability die_2 die_123)))
       = Fin (6004799503160662 / 2 ^ 54)
   \<and> double (js_sub (Fin 1) (js_add (calculateWinProbability die_123 die_2)
                                      (calculateWinProbability die_2 die_123)))
       \<noteq> double (Fin (tie_fraction die_123 die_2))"
  by (simp add: calc_values tie_value gap_value double_values)

section \<open>The average over a pool\<close>

lemma average_loop_foldl:
  "average_loop h d pool t
     = foldl js_add t (map (\<lambda>other. calculateWinProbability (h d) (h other)) (others d pool))"
  by (induction pool arbitrary: t) (auto simp: others_def)

lemma length_others: "length (others d pool) + count_list pool d = length pool"
  by (induction pool) (simp_all add: others_def)

lemma double_idem [simp]: "double (double x) = double x"
proof (cases x)
  case (Fin q)
  have "double (double_of q) = double_of q"
    by (simp add: double_of_def Let_def)
  with Fin show ?thesis by simp
qed simp_all

lemma js_add_zero: "js_add (Fin 0) x = double x"
  by (cases "double x") (simp_all add: js_add_def)

lemma js_div_double: "js_div (double x) y = js_div x y"
  by (simp add: js_div_def)

lemma calculateWinProbability_range:
  "calculateWinProbability a b = NaN
   \<or> (\<exists>p. calculateWinProbability a b = Fin p \<and> 0 \<le> p \<and> p \<le> 1)"
proof (cases "faces a \<noteq> [] \<and> faces b \<noteq> []")
  case True
  then show ?thesis
    using calculateWinProbability_Fin [of a b] pairwise_bounds [of a b] by simp
next
  case False
  then have "outer_faces (faces a) (faces b) 0 = 0"
    by (auto simp: outer_faces_count)
  with False have "calculateWinProbability a b = NaN"
    by (auto simp: calculateWinProbability_def getFaces_def getFaceCount_def
        js_div_counters_def)
  then show ?thesis by simp
qed

lemma js_div_by_zero:
  "js_div x (Fin 0) = NaN \<or> js_div x (Fin 0) = PosInf \<or> js_div x (Fin 0) = NegInf"
  by (cases "double x") (simp_all add: js_div_def)

text \<open>
  C7 (as the code has it). For a pool of at least two entries in which the die \<open>d\<close> occurs
  exactly once, \<open>averageWinProbability d pool\<close> is the arithmetic mean of the pairwise
  probabilities of \<open>d\<close> against the pool members not identical to \<open>d\<close>, in the arithmetic
  of doubles: their sum, added up in pool order, divided by their number.
\<close>

theorem averageWinProbability_mean:
  assumes "2 \<le> length pool" and "count_list pool d = 1"
  shows "averageWinProbability h d pool
           = mean_number (map (\<lambda>other. calculateWinProbability (h d) (h other)) (others d pool))"
proof -
  let ?ps = "map (\<lambda>other. calculateWinProbability (h d) (h other)) (others d pool)"
  have len: "int (length pool) - 1 = int (length (others d pool))"
    using length_others [of d pool] assms(2) by simp
  have "averageWinProbability h d pool
           = js_div (foldl js_add (Fin 0) ?ps) (Fin (of_nat (length (others d pool))))"
    by (simp add: averageWinProbability_def average_loop_foldl len)
  then show ?thesis
    by (simp add: mean_number_def)
qed

lemma mean_A_in_pool:
  "mean_number (map (\<lambda>other. calculateWinProbability (example_store 0) (example_store other))
                  (others 0 [0, 1, 2])) = Fin (1 / 2)"
  by (simp add: mean_number_def others_def example_store_def calc_values sum_A js_div_def
      double_values)

theorem averageWinProbability_mean_witness:
  "averageWinProbability example_store 0 [0, 1, 2] = Fin (1 / 2)"
  using averageWinProbability_mean [of "[0, 1, 2]" 0 example_store] mean_A_in_pool
  by simp

text \<open>
  The claim C7 as stated fails for a die outside the pool: against the pool of \<open>B\<close> and \<open>C\<close>
  the die \<open>A\<close> has the pairwise probabilities \<open>5/9\<close> and \<open>4/9\<close>, of mean \<open>1/2\<close>, and the
  code returns \<open>1\<close>.
\<close>

theorem averageWinProbability_outsider:
  "others 0 [1, 2] = [1, 2]
   \<and> averageWinProbability example_store 0 [1, 2] = Fin 1
   \<and> mean_number [calculateWinProbability (example_store 0) (example_store 1),
                   calculateWinProbability (example_store 0) (example_store 2)]
       = Fin (1 / 2)"
  by (simp add: averageWinProbability_def mean_number_def others_def example_store_def
      calc_values sum_A js_div_def double_values)

text \<open>
  C6 (as the code has it). \<open>averageWinProbability\<close> checks nothing and raises nothing. On a
  pool of fewer than two entries it returns a Number: \<open>0\<close> on the empty pool, and on a pool
  of one entry the result of the division by zero, \<open>NaN\<close> when that entry is \<open>d\<close> itself,
  else the pairwise probability divided by zero, which is \<open>NaN\<close> or \<open>Infinity\<close>.
\<close>

theorem averageWinProbability_small_pool:
  assumes "length pool < 2"
  shows "averageWinProbability h d pool
           = (case pool of [] \<Rightarrow> Fin 0
              | other # _ \<Rightarrow> if other = d then NaN
                             else js_div (calculateWinProbability (h d) (h other)) (Fin 0))
         \<and> averageWinProbability h d pool \<in> {Fin 0, NaN, PosInf}"
proof (cases pool)
  case Nil
  then show ?thesis by (simp add: averageWinProbability_def js_div_def)
next
  case (Cons other rest)
  with assms have pool: "pool = [other]" by simp
  show ?thesis
  proof (cases "other = d")
    case True
    with pool show ?thesis by (simp add: averageWinProbability_def js_div_def)
  next
    case False
    let ?c = "calculateWinProbability (h d) (h other)"
    have "averageWinProbability h d pool = js_div (js_add (Fin 0) ?c) (Fin 0)"
      using pool False by (simp add: averageWinProbability_def)
    then have eq: "averageWinProbability h d pool = js_div ?c (Fin 0)"
      by (simp only: js_add_zero js_div_double)
    have "js_div ?c (Fin 0) = NaN \<or> js_div ?c (Fin 0) = PosInf"
      using calculateWinProbability_range [of "h d" "h other"]
    proof
      assume "?c = NaN"
      then show ?thesis by (simp add: js_div_def)
    next
      assume "\<exists>p. ?c = Fin p \<and> 0 \<le> p \<and> p \<le> 1"
      then obtain p where p: "?c = Fin p" "0 \<le> p" by blast
      have "fl p = 0 \<or> 0 < fl p"
        using fl_nonneg [OF p(2)] by linarith
      with double_of_nonneg [OF p(2)] show ?thesis
        by (auto simp: p(1) js_div_def)
    qed
    with eq pool False show ?thesis by auto
  qed
qed

lemma die_A_by_zero: "js_div (calculateWinProbability die_A die_B) (Fin 0) = PosInf"
  by (simp add: calc_values js_div_def double_values)

theorem averageWinProbability_small_pool_witness:
  "averageWinProbability example_store 0 [1] = PosInf"
  using averageWinProbability_small_pool [of "[1]" example_store 0] die_A_by_zero
  by (simp add: example_store_def)

text \<open>
  The claim C6 as stated fails: on the pool holding only the die itself the call returns
  \<open>NaN\<close>, the value of \<open>0 / 0\<close>.
\<close>

theorem averageWinProbability_single_pool_NaN:
  "averageWinProbability example_store 0 [0] = NaN"
  by (simp add: averageWinProbability_def js_div_def)

section \<open>The dice parseDice builds\<close>

lemma number_of_integer_safe:
  assumes "\<bar>v\<bar> \<le> 2 ^ 53"
  shows "number_of_integer v = Finite v"
proof -
  have "\<bar>of_int v :: rat\<bar> \<le> 2 ^ 53"
    using assms by (simp flip: of_int_abs)
  moreover have "(2::rat) ^ 53 < 2 ^ 1024"
    by simp
  ultimately have "\<not> 2 ^ 1024 \<le> (of_int v :: rat)" "\<not> (of_int v :: rat) \<le> - (2 ^ 1024)"
    by linarith+
  then show ?thesis
    by (simp add: number_of_integer_def Let_def fl_of_int [OF assms])
qed

lemma number_of_integer_code [code]:
  "number_of_integer v =
     (if \<bar>v\<bar> \<le> 2 ^ 53 then Finite v
      else (let r = fl (of_int v)
            in if 2 ^ 1024 \<le> r then PlusInfinity
               else if r \<le> - (2 ^ 1024) then MinusInfinity
               else Finite \<lfloor>r\<rfloor>))"
  using number_of_integer_safe [of v] by (simp add: number_of_integer_def)

lemma split_on_not_Nil: "split_on sep s \<noteq> []"
  by (induction s) (auto split: list.splits)

lemma map_faces_Inr:
  "map_faces pieces = Inr fs
     \<longleftrightarrow> list_all2 (\<lambda>piece f. parseInt (trim piece) 0 = Some f) pieces fs"
proof (induction pieces arbitrary: fs)
  case Nil
  show ?case by auto
next
  case (Cons piece rest)
  show ?case
    by (cases fs) (auto simp: Cons.IH [symmetric] split: option.splits sum.splits)
qed

lemma reads_as_map_faces:
  "reads_as arg d \<longleftrightarrow> map_faces (split_on CHR '','' arg) = Inr (faces d)"
  by (simp add: reads_as_def map_faces_Inr)

lemma reads_as_not_Nil: "reads_as arg d \<Longrightarrow> faces d \<noteq> []"
  using split_on_not_Nil [of "CHR '',''" arg]
  by (auto simp: reads_as_def dest: list_all2_lengthD)

lemma parse_args_Inr:
  "parse_args args acc = Inr dice \<longleftrightarrow> (\<exists>new. dice = acc @ new \<and> list_all2 reads_as args new)"
proof (induction args arbitrary: acc)
  case Nil
  show ?case by auto
next
  case (Cons arg rest)
  show ?case
  proof
    assume "parse_args (arg # rest) acc = Inr dice"
    then obtain fs where fs: "map_faces (split_on CHR '','' arg) = Inr fs"
      and r: "parse_args rest (acc @ [\<lparr>faces = fs\<rparr>]) = Inr dice"
      by (auto split: sum.splits if_splits)
    from r obtain new where "dice = (acc @ [\<lparr>faces = fs\<rparr>]) @ new" "list_all2 reads_as rest new"
      by (auto simp: Cons.IH)
    moreover have "reads_as arg \<lparr>faces = fs\<rparr>"
      using fs by (simp add: reads_as_map_faces)
    ultimately have "dice = acc @ (\<lparr>faces = fs\<rparr> # new)
        \<and> list_all2 reads_as (arg # rest) (\<lparr>faces = fs\<rparr> # new)"
      by simp
    then show "\<exists>new. dice = acc @ new \<and> list_all2 reads_as (arg # rest) new"
      by blast
  next
    assume "\<exists>new. dice = acc @ new \<and> list_all2 reads_as (arg # rest) new"
    then obtain d new where dice: "dice = acc @ d # new"
      and d: "reads_as arg d" and new: "list_all2 reads_as rest new"
      by (auto simp: list_all2_Cons1)
    have m: "map_faces (split_on CHR '','' arg) = Inr (faces d)"
      using d by (simp add: reads_as_map_faces)
    have ne: "\<not> length (faces d) < 1"
      using reads_as_not_Nil [OF d] by (simp add: Suc_le_eq)
    have eqd: "\<lparr>faces = faces d\<rparr> = d" by simp
    have "\<exists>n. dice = (acc @ [d]) @ n \<and> list_all2 reads_as rest n"
      using new dice by auto
    then have "parse_args rest (acc @ [d]) = Inr dice"
      by (simp only: Cons.IH)
    then have "parse_args rest (acc @ [\<lparr>faces = faces d\<rparr>]) = Inr dice"
      by (simp only: eqd)
    then show "parse_args (arg # rest) acc = Inr dice"
      using m ne by simp
  qed
qed

text \<open>What \<open>parseInt\<close> reads beyond the safe integers: the nearest double from sixteen
  digits, an infinity from a hexadecimal numeral of 257 digits.\<close>

lemma fl_above_safe: "fl 9007199254740993 = 9007199254740992"
  by code_simp

lemma number_of_integer_above_safe:
  "number_of_integer 9007199254740993 = Finite 9007199254740992"
  using fl_above_safe by (simp add: number_of_integer_def)

lemma parseInt_rounds:
  "parseInt ''9007199254740993'' 10 = Some (Finite 9007199254740992)"
  by (simp add: parseInt_def isWhiteSpace_def is_digit_def digit_value_def Let_def
      number_of_integer_above_safe)

lemma hex_zeros_value:
  "digits_value 16 (replicate n (CHR ''0'')) acc = acc * 16 ^ n"
  by (induction n arbitrary: acc) (simp_all add: digit_value_def)

lemma fl_2_1024: "fl (2 ^ 1024) = 2 ^ 1024"
proof -
  have "(2::rat) powi 1024 < 2 powi (1024 + 1)"
    by (rule power_int_strict_increasing) simp_all
  then have e: "exponent (2 ^ 1024) = 1024"
    by (intro exponent_unique) simp_all
  have "(2::rat) ^ 1024 = 2 powi (52 + (1024 - 52))" by simp
  also have "\<dots> = 2 powi 52 * 2 powi (1024 - 52)" by (rule power_int_add) simp
  finally have "(2::rat) ^ 1024 / 2 powi (1024 - 52) = of_int (2 ^ 52)"
    by simp
  then have "(2::rat) ^ 1024 / 2 powi (max (exponent (2 ^ 1024)) (- 1022) - 52) = of_int (2 ^ 52)"
    by (simp only: e max.absorb1) 
  then show ?thesis by (rule fl_fixed)
qed

lemma number_of_integer_2_1024: "number_of_integer (2 ^ 1024) = PlusInfinity"
proof -
  have "fl (of_int (2 ^ 1024)) = 2 ^ 1024"
    using fl_2_1024 by simp
  then show ?thesis
    unfolding number_of_integer_def Let_def by (simp only: order_refl if_True)
qed

lemma parseInt_hex:
  assumes "Z \<noteq> []" and "\<forall>c\<in>set Z. is_digit 16 c"
  shows "parseInt (''0x'' @ Z) 0 = Some (number_of_integer (int (digits_value 16 Z 0)))"
proof -
  have tw: "takeWhile (is_digit 16) Z = Z"
    using assms(2) by simp
  from assms(1) show ?thesis
    by (simp add: parseInt_def isWhiteSpace_def Let_def tw)
qed

lemma parseInt_reads_infinity:
  "parseInt (''0x1'' @ replicate 256 (CHR ''0'')) 0 = Some PlusInfinity"
proof -
  let ?Z = "CHR ''1'' # replicate 256 (CHR ''0'')"
  have "\<forall>c\<in>set ?Z. is_digit 16 c"
    by (simp add: is_digit_def digit_value_def)
  then have "parseInt (''0x'' @ ?Z) 0 = Some (number_of_integer (int (digits_value 16 ?Z 0)))"
    by (intro parseInt_hex) simp_all
  moreover have "digits_value 16 ?Z 0 = 16 ^ 256"
    by (simp add: hex_zeros_value digit_value_def)
  moreover have "int (16 ^ 256) = 2 ^ 1024"
    by simp
  ultimately have "parseInt (''0x'' @ ?Z) 0 = Some (number_of_integer (2 ^ 1024))"
    by (simp only:)
  then show ?thesis
    by (simp only: number_of_integer_2_1024) simp
qed

text \<open>
  C9 (as the code has it). \<open>parseDice\<close> succeeds exactly when it gets at least three
  arguments and \<open>parseInt\<close> reads a Number, not \<open>NaN\<close>, from every trimmed piece between the
  commas; it checks nothing else. The dice it builds are, one per argument and in order,
  the dice with those Numbers as faces: at least one face each, every face an integer of
  either sign, or an infinity when the digits go beyond the range of a double.
\<close>

theorem parseDice_dice_nonempty:
  "(parseDice args = Inr dice \<longleftrightarrow> 3 \<le> length args \<and> list_all2 reads_as args dice)
   \<and> (parseDice args = Inr dice \<longrightarrow>
        length dice = length args \<and> (\<forall>d\<in>set dice. 1 \<le> length (faces d)))"
proof -
  have iff: "parseDice args = Inr dice \<longleftrightarrow> 3 \<le> length args \<and> list_all2 reads_as args dice"
    by (auto simp: parseDice_def parse_args_Inr)
  have "length dice = length args \<and> (\<forall>d\<in>set dice. 1 \<le> length (faces d))"
    if "list_all2 reads_as args dice"
  proof -
    have "\<forall>d\<in>set dice. faces d \<noteq> []"
    proof
      fix d
      assume "d \<in> set dice"
      then obtain i where i: "i < length dice" "dice ! i = d"
        by (auto simp: in_set_conv_nth)
      with that have "reads_as (args ! i) d"
        by (auto simp: list_all2_conv_all_nth)
      then show "faces d \<noteq> []" by (rule reads_as_not_Nil)
    qed
    then show ?thesis
      using that by (auto simp: Suc_le_eq dest: list_all2_lengthD)
  qed
  with iff show ?thesis by blast
qed

theorem parseDice_dice_nonempty_witness:
  "parseDice [''1,2,3'', ''4,5,6'', ''7,8,9'']
     = Inr [\<lparr>faces = map Finite [1, 2, 3]\<rparr>, \<lparr>faces = map Finite [4, 5, 6]\<rparr>,
            \<lparr>faces = map Finite [7, 8, 9]\<rparr>]
   \<and> list_all2 reads_as [''1,2,3'', ''4,5,6'', ''7,8,9'']
        [\<lparr>faces = map Finite [1, 2, 3]\<rparr>, \<lparr>faces = map Finite [4, 5, 6]\<rparr>,
         \<lparr>faces = map Finite [7, 8, 9]\<rparr>]"
proof -
  have run: "parseDice [''1,2,3'', ''4,5,6'', ''7,8,9'']
               = Inr [\<lparr>faces = map Finite [1, 2, 3]\<rparr>, \<lparr>faces = map Finite [4, 5, 6]\<rparr>,
                      \<lparr>faces = map Finite [7, 8, 9]\<rparr>]"
    by code_simp
  with parseDice_dice_nonempty [of "[''1,2,3'', ''4,5,6'', ''7,8,9'']"
      "[\<lparr>faces = map Finite [1, 2, 3]\<rparr>, \<lparr>faces = map Finite [4, 5, 6]\<rparr>,
        \<lparr>faces = map Finite [7, 8, 9]\<rparr>]"]
  show ?thesis by blast
qed

text \<open>
  The claim C9 as stated fails: \<open>parseDice\<close> accepts the argument \<open>-1,2,3\<close> and builds a die
  with the face \<open>-1\<close>.
\<close>

theorem parseDice_negative_face:
  "parseDice [''-1,2,3'', ''4,5,6'', ''7,8,9'']
     = Inr [\<lparr>faces = map Finite [- 1, 2, 3]\<rparr>, \<lparr>faces = map Finite [4, 5, 6]\<rparr>,
            \<lparr>faces = map Finite [7, 8, 9]\<rparr>]"
  by code_simp

section \<open>The fair roll indexes a face\<close>

lemma toString_digits: "c \<in> set (toString n) \<Longrightarrow> 48 \<le> (of_char c :: nat) \<and> (of_char c :: nat) \<le> 57"
proof (induction n rule: toString.induct)
  case (1 n)
  show ?case
  proof (cases "n < 10")
    case True
    with "1.prems" show ?thesis
      by (subst (asm) toString.simps) auto
  next
    case False
    with "1.prems" have "c \<in> set (toString (n div 10)) \<or> c = char_of (48 + n mod 10)"
      by (subst (asm) toString.simps) auto
    then show ?thesis
    proof
      assume "c \<in> set (toString (n div 10))"
      with "1.IH" False show ?thesis by simp
    next
      assume c: "c = char_of (48 + n mod 10)"
      have "n mod 10 < 10" by simp
      then have "(48 + n mod 10) mod 256 = 48 + n mod 10" by simp
      with c show ?thesis by simp
    qed
  qed
qed

lemma toString_not_Nil: "toString n \<noteq> []"
  by (subst toString.simps) simp

lemma digit_value_decimal: "k < 10 \<Longrightarrow> digit_value (char_of (48 + k)) = Some k"
  by (simp add: digit_value_def Let_def)

lemma digits_value_snoc:
  "digits_value R (xs @ [c]) acc
     = digits_value R xs acc * R + (case digit_value c of None \<Rightarrow> 0 | Some v \<Rightarrow> v)"
  by (induction xs arbitrary: acc) simp_all

lemma digits_value_toString: "digits_value 10 (toString n) 0 = n"
proof (induction n rule: toString.induct)
  case (1 n)
  show ?case
  proof (cases "n < 10")
    case True
    then show ?thesis
      by (subst toString.simps) (simp add: digit_value_decimal)
  next
    case False
    have "n mod 10 < 10" by simp
    note dv = digit_value_decimal [OF this]
    from False "1.IH" show ?thesis
      by (subst toString.simps) (simp add: digits_value_snoc dv)
  qed
qed

lemma is_digit_decimal: "48 \<le> (of_char c :: nat) \<Longrightarrow> (of_char c :: nat) \<le> 57 \<Longrightarrow> is_digit 10 c"
  by (auto simp: is_digit_def digit_value_def Let_def)

lemma parseInt_toString:
  assumes "int n \<le> 2 ^ 53"
  shows "parseInt (toString n) 10 = Some (Finite (int n))"
proof -
  obtain c cs where ccs: "toString n = c # cs"
    using toString_not_Nil [of n] by (cases "toString n") auto
  then have "c \<in> set (toString n)" by simp
  then have c: "48 \<le> (of_char c :: nat)" "(of_char c :: nat) \<le> 57"
    using toString_digits by blast+
  have ws: "\<not> isWhiteSpace c" using c by (auto simp: isWhiteSpace_def)
  have sg: "c \<noteq> CHR ''+''" "c \<noteq> CHR ''-''" using c by auto
  have "\<forall>x\<in>set (toString n). is_digit 10 x"
    using toString_digits is_digit_decimal by blast
  then have tw: "takeWhile (is_digit 10) (c # cs) = c # cs"
    unfolding ccs [symmetric] by (simp only: takeWhile_eq_all_conv)
  have dv: "digits_value 10 (c # cs) 0 = n"
    using digits_value_toString [of n] by (simp only: ccs)
  have "number_of_integer (int n) = Finite (int n)"
    using assms by (intro number_of_integer_safe) simp
  then show ?thesis
    unfolding parseInt_def ccs Let_def using ws sg tw dv by simp
qed

lemma toUpperCase_toString: "toUpperCase (toString n) = toString n"
  unfolding toUpperCase_def
  by (rule map_idI) (use toString_digits in fastforce)

lemma toString_not_X: "toString n \<noteq> ''X''"
proof
  assume "toString n = ''X''"
  then have "CHR ''X'' \<in> set (toString n)" by simp
  from toString_digits [OF this] show False by simp
qed

lemma toString_not_help: "toString n \<noteq> ''?''"
proof
  assume "toString n = ''?''"
  then have "CHR ''?'' \<in> set (toString n)" by simp
  from toString_digits [OF this] show False by simp
qed

lemma ask_Returned:
  "ask options lines = (Returned choice, rest) \<Longrightarrow> choice \<in> set options"
  by (induction options lines rule: ask.induct) (auto simp: Let_def split: if_splits)

lemma ask_valid_line:
  assumes "toString n \<in> set options"
  shows "ask options (toString n # rest) = (Returned (toString n), rest)"
  using assms by (simp add: toUpperCase_toString toString_not_X toString_not_help)

lemma roll_options_mem:
  "choice \<in> set (roll_options mx) \<longleftrightarrow> (\<exists>n. choice = toString n \<and> int n \<le> mx)"
  by (auto simp: roll_options_def)

lemma performFairRoll_safe:
  assumes "performFairRoll H mx g lines = (Returned res, g', rest)"
  shows "\<exists>i. res = Some i \<and> 0 \<le> i \<and> i \<le> mx"
proof -
  from assms obtain c g1 choice where
    c: "new_FairRandomGenerator H mx g = (Inr c, g1)"
    and a: "ask (roll_options mx) lines = (Returned choice, rest)"
    and res: "res = (case parseInt choice 10 of Some (Finite y) \<Rightarrow> computeResult c y
                      | _ \<Rightarrow> None)"
    by (auto simp: performFairRoll_def Let_def split: prod.splits sum.splits outcome.splits)
  from ask_Returned [OF a] obtain n where n: "choice = toString n" "int n \<le> mx"
    by (auto simp: roll_options_mem)
  from new_FairRandomGenerator_Inr [OF c]
  have cf: "rangeSize c = mx" "0 \<le> secret_x c" "secret_x c \<le> rangeSize c"
    and "mx + 1 \<le> RAND_MAX" by simp_all
  then have "int n \<le> 2 ^ 53"
    using n(2) by (simp add: RAND_MAX_def)
  then have p: "parseInt choice 10 = Some (Finite (int n))"
    unfolding n(1) by (rule parseInt_toString)
  from computeResult_in_range [OF cf(2,3), of "int n"]
  obtain r where "computeResult c (int n) = Some r" "0 \<le> r" "r \<le> rangeSize c" by auto
  with res p cf(1) show ?thesis
    by simp
qed

lemma performFairRoll_returns:
  assumes "0 \<le> mx" and "mx \<le> 0xFFFFFFFF" and "0 \<le> y" and "y \<le> mx"
  shows "performFairRoll H mx g (toString (nat y) # rest)
           = (Returned (Some ((int (src g (draws g + 32)) mod (mx + 1) + y) mod (mx + 1))),
              g\<lparr>draws := draws g + 33\<rparr>, rest)"
proof -
  from new_FairRandomGenerator_succeeds [OF assms(1,2), of H g]
  obtain c where c: "new_FairRandomGenerator H mx g = (Inr c, g\<lparr>draws := draws g + 33\<rparr>)"
    "rangeSize c = mx" "secret_x c = int (src g (draws g + 32)) mod (mx + 1)" by blast
  have "toString (nat y) \<in> set (roll_options mx)"
    using assms(3,4) by (auto simp: roll_options_mem)
  then have a: "ask (roll_options mx) (toString (nat y) # rest) = (Returned (toString (nat y)), rest)"
    by (rule ask_valid_line)
  have x: "0 \<le> secret_x c" "secret_x c \<le> rangeSize c"
    using mod_succ_bounds [OF assms(1)] c(2,3) by simp_all
  have "int (nat y) \<le> 2 ^ 53"
    using assms(2,3,4) by simp
  then have p: "parseInt (toString (nat y)) 10 = Some (Finite y)"
    using parseInt_toString [of "nat y"] assms(3) by simp
  from computeResult_in_range [OF x assms(3)]
  have "computeResult c y = Some ((secret_x c + y) mod (rangeSize c + 1))" by simp
  then show ?thesis
    by (simp add: performFairRoll_def c a p del: ask.simps)
qed

lemma element_at_index:
  assumes "0 \<le> i" and "i \<le> int (length arr) - 1"
  shows "element_at arr (Some i) = Some (arr ! nat i) \<and> nat i < length arr"
  using assms by (simp add: element_at_def)

lemma performThrows_returns:
  assumes "faces userDie \<noteq> []" and "length (faces userDie) \<le> 2 ^ 32"
    and "faces computerDie \<noteq> []" and "length (faces computerDie) \<le> 2 ^ 32"
    and "0 \<le> yc" and "yc \<le> int (getFaceCount computerDie) - 1"
    and "0 \<le> yu" and "yu \<le> int (getFaceCount userDie) - 1"
  shows "\<exists>i j g'. performThrows H userDie computerDie g
                      (toString (nat yc) # toString (nat yu) # rest)
                    = (Returned (Some (faces userDie ! i), Some (faces computerDie ! j)), g', rest)
                  \<and> i < length (faces userDie) \<and> j < length (faces computerDie)"
proof -
  let ?mc = "int (getFaceCount computerDie) - 1" and ?mu = "int (getFaceCount userDie) - 1"
  have mc: "0 \<le> ?mc" "?mc \<le> 0xFFFFFFFF"
    using assms(3,4) by (simp_all add: getFaceCount_def Suc_le_eq)
  have mu: "0 \<le> ?mu" "?mu \<le> 0xFFFFFFFF"
    using assms(1,2) by (simp_all add: getFaceCount_def Suc_le_eq)
  define g1 where "g1 = g\<lparr>draws := draws g + 33\<rparr>"
  define rc where "rc = (int (src g (draws g + 32)) mod (?mc + 1) + yc) mod (?mc + 1)"
  define ru where "ru = (int (src g1 (draws g1 + 32)) mod (?mu + 1) + yu) mod (?mu + 1)"
  have r1: "performFairRoll H ?mc g (toString (nat yc) # toString (nat yu) # rest)
              = (Returned (Some rc), g1, toString (nat yu) # rest)"
    unfolding rc_def g1_def by (rule performFairRoll_returns [OF mc assms(5,6)])
  have r2: "performFairRoll H ?mu g1 (toString (nat yu) # rest)
              = (Returned (Some ru), g1\<lparr>draws := draws g1 + 33\<rparr>, rest)"
    unfolding ru_def by (rule performFairRoll_returns [OF mu assms(7,8)])
  have "0 \<le> rc" "rc \<le> int (length (faces computerDie)) - 1"
    using mc(1) by (simp_all add: rc_def getFaceCount_def)
  note ec = element_at_index [OF this]
  have "0 \<le> ru" "ru \<le> int (length (faces userDie)) - 1"
    using mu(1) by (simp_all add: ru_def getFaceCount_def)
  note eu = element_at_index [OF this]
  have "performThrows H userDie computerDie g (toString (nat yc) # toString (nat yu) # rest)
          = (Returned (Some (faces userDie ! nat ru), Some (faces computerDie ! nat rc)),
             g1\<lparr>draws := draws g1 + 33\<rparr>, rest)"
    by (simp add: performThrows_def r1 r2 getFaces_def ec eu)
  with ec eu
  show ?thesis
    by blast
qed

lemma performThrows_safe:
  assumes pt: "performThrows H userDie computerDie g lines
                 = (Returned (userRoll, computerRoll), g', rest')"
  shows "\<exists>i j. i < length (faces userDie) \<and> j < length (faces computerDie)
           \<and> userRoll = Some (faces userDie ! i) \<and> computerRoll = Some (faces computerDie ! j)"
proof -
  from pt obtain cr g1 lines1 ur where
    r1: "performFairRoll H (int (getFaceCount computerDie) - 1) g lines = (Returned cr, g1, lines1)"
    and r2: "performFairRoll H (int (getFaceCount userDie) - 1) g1 lines1 = (Returned ur, g', rest')"
    and u: "userRoll = element_at (getFaces userDie) ur"
    and c: "computerRoll = element_at (getFaces computerDie) cr"
    by (auto simp: performThrows_def split: prod.splits outcome.splits)
  from performFairRoll_safe [OF r1] obtain j where
    j: "cr = Some j" "0 \<le> j" "j \<le> int (length (faces computerDie)) - 1"
    by (auto simp: getFaceCount_def)
  from performFairRoll_safe [OF r2] obtain i where
    i: "ur = Some i" "0 \<le> i" "i \<le> int (length (faces userDie)) - 1"
    by (auto simp: getFaceCount_def)
  from element_at_index [OF i(2,3)] element_at_index [OF j(2,3)] u c i(1) j(1)
  show ?thesis
    by (auto simp: getFaces_def)
qed

text \<open>
  C10. For dice with at least one face (and at most \<open>2^32\<close>: no JavaScript array is
  longer, and the secret is encoded in 32 bits), the throws over contributions \<open>yc\<close> and
  \<open>yu\<close> inside the ranges of the two rolls return, and return faces of the dice: each roll
  is an index into the face sequence of its die. And whatever the dice, the random source
  and the lines the user enters, throws that return have read no face out of bounds.
\<close>

theorem performThrows_in_bounds:
  "(faces userDie \<noteq> [] \<and> length (faces userDie) \<le> 2 ^ 32
      \<and> faces computerDie \<noteq> [] \<and> length (faces computerDie) \<le> 2 ^ 32
      \<and> 0 \<le> yc \<and> yc \<le> int (getFaceCount computerDie) - 1
      \<and> 0 \<le> yu \<and> yu \<le> int (getFaceCount userDie) - 1
    \<longrightarrow> (\<exists>i j g'. performThrows H userDie computerDie g
                      (toString (nat yc) # toString (nat yu) # rest)
                    = (Returned (Some (faces userDie ! i), Some (faces computerDie ! j)), g', rest)
                  \<and> i < length (faces userDie) \<and> j < length (faces computerDie)))
   \<and> (\<forall>lines userRoll computerRoll g' rest'.
         performThrows H userDie computerDie g lines
           = (Returned (userRoll, computerRoll), g', rest')
         \<longrightarrow> (\<exists>i j. i < length (faces userDie) \<and> j < length (faces computerDie)
                \<and> userRoll = Some (faces userDie ! i)
                \<and> computerRoll = Some (faces computerDie ! j)))"
proof (intro conjI allI impI)
  assume a: "faces userDie \<noteq> [] \<and> length (faces userDie) \<le> 2 ^ 32
      \<and> faces computerDie \<noteq> [] \<and> length (faces computerDie) \<le> 2 ^ 32
      \<and> 0 \<le> yc \<and> yc \<le> int (getFaceCount computerDie) - 1
      \<and> 0 \<le> yu \<and> yu \<le> int (getFaceCount userDie) - 1"
  then show "\<exists>i j g'. performThrows H userDie computerDie g
                      (toString (nat yc) # toString (nat yu) # rest)
                    = (Returned (Some (faces userDie ! i), Some (faces computerDie ! j)), g', rest)
                  \<and> i < length (faces userDie) \<and> j < length (faces computerDie)"
    by (intro performThrows_returns) simp_all
next
  fix lines userRoll computerRoll g' rest'
  assume "performThrows H userDie computerDie g lines
            = (Returned (userRoll, computerRoll), g', rest')"
  then show "\<exists>i j. i < length (faces userDie) \<and> j < length (faces computerDie)
          \<and> userRoll = Some (faces userDie ! i) \<and> computerRoll = Some (faces computerDie ! j)"
    by (rule performThrows_safe)
qed

theorem performThrows_in_bounds_witness:
  "\<exists>i j g'. performThrows example_hash die_A die_B example_rng [''5'', ''0'', ''x'']
               = (Returned (Some (faces die_A ! i), Some (faces die_B ! j)), g', [''x''])
            \<and> i < length (faces die_A) \<and> j < length (faces die_B)"
proof -
  have "toString (nat 5) = ''5''" "toString (nat 0) = ''0''"
    by code_simp+
  with performThrows_in_bounds [where userDie = die_A and computerDie = die_B and yc = 5
      and yu = 0 and H = example_hash and g = example_rng and rest = "[''x'']"]
  show ?thesis
    by (simp add: die_A_def die_B_def getFaceCount_def)
qed

end
